theory Spec2Isabelle
  imports Main "HOL-Library.Word"
begin

section \<open>Machine integers and raw arrays\<close>

text \<open>
  \<^verbatim>\<open>CircularBuffer.h\<close> is a class template
  \<^verbatim>\<open>template<typename TYPE, unsigned int LEN> class CircularBuffer\<close>.
  The element type \<^verbatim>\<open>TYPE\<close> is the type variable \<open>'a\<close>; the capacity \<^verbatim>\<open>LEN\<close> is a
  value parameter of every operation.

  The width of \<^verbatim>\<open>int\<close> and \<^verbatim>\<open>unsigned int\<close> is left to the platform, so it is the type
  variable \<open>'w\<close>: both types are \<open>'w word\<close>. An \<^verbatim>\<open>unsigned int\<close> is read with \<open>uint\<close> or
  \<open>unat\<close>, an \<^verbatim>\<open>int\<close> with \<open>sint\<close> (two's complement). A conversion between the two keeps
  the bits, as C++20 requires and earlier two's complement implementations do. Where an \<^verbatim>\<open>int\<close> meets the \<^verbatim>\<open>unsigned int\<close> \<^verbatim>\<open>LEN\<close> in \<^verbatim>\<open>+\<close>, \<^verbatim>\<open>-\<close>, \<^verbatim>\<open>%\<close> or
  \<^verbatim>\<open><\<close>, the usual arithmetic conversions of C++ turn the \<^verbatim>\<open>int\<close> into \<^verbatim>\<open>unsigned int\<close>
  first: the operation is the one of \<open>'w word\<close>, which wraps modulo \<open>2 ^ LENGTH('w)\<close> and
  compares unsigned.
\<close>

definition INT_MAX :: "'w::len word" where
  "INT_MAX = 2 ^ (LENGTH('w) - 1) - 1"

text \<open>
  \<^verbatim>\<open>++x\<close> on an \<^verbatim>\<open>int\<close>: incrementing \<^verbatim>\<open>INT_MAX\<close> is undefined behaviour, the value \<open>None\<close>.
\<close>

definition int_incr :: "'w::len word \<Rightarrow> 'w word option" where
  "int_incr x = (if x = INT_MAX then None else Some (x + 1))"

text \<open>
  \<^verbatim>\<open>a[i]\<close> on a raw array: an index outside the array is undefined behaviour, the value
  \<open>None\<close>. The index is the mathematical value of the C++ index expression.
\<close>

definition arr_get :: "'a list \<Rightarrow> int \<Rightarrow> 'a option" where
  "arr_get xs i = (if 0 \<le> i \<and> i < int (length xs) then Some (xs ! nat i) else None)"

definition arr_set :: "'a list \<Rightarrow> int \<Rightarrow> 'a \<Rightarrow> 'a list option" where
  "arr_set xs i v = (if 0 \<le> i \<and> i < int (length xs) then Some (xs[nat i := v]) else None)"

subsection \<open>Floating-point elements\<close>

text \<open>
  \<^verbatim>\<open>float\<close> and \<^verbatim>\<open>double\<close> are arithmetic element types. What the class does with an element
  is to copy it and to compare it with \<^verbatim>\<open><\<close> and \<^verbatim>\<open>>\<close>, so a floating-point value is modelled as
  far as its comparisons go: it is a number \<open>Val x\<close>, ordered as the numbers are, or a
  \<open>NaN\<close>, and every comparison with a \<open>NaN\<close> is false. \<open>fp_eq\<close> is \<^verbatim>\<open>==\<close> on such values.
\<close>

datatype 'a fp = NaN | Val 'a

instantiation fp :: (ord) ord
begin

definition less_eq_fp :: "'a fp \<Rightarrow> 'a fp \<Rightarrow> bool" where
  "less_eq_fp a b =
     (case a of NaN \<Rightarrow> False | Val x \<Rightarrow> (case b of NaN \<Rightarrow> False | Val y \<Rightarrow> x \<le> y))"

definition less_fp :: "'a fp \<Rightarrow> 'a fp \<Rightarrow> bool" where
  "less_fp a b =
     (case a of NaN \<Rightarrow> False | Val x \<Rightarrow> (case b of NaN \<Rightarrow> False | Val y \<Rightarrow> x < y))"

instance ..

end

definition fp_eq :: "'a fp \<Rightarrow> 'a fp \<Rightarrow> bool" where
  "fp_eq a b =
     (case a of NaN \<Rightarrow> False | Val x \<Rightarrow> (case b of NaN \<Rightarrow> False | Val y \<Rightarrow> x = y))"

section \<open>The class\<close>

text \<open>
  \<^verbatim>\<open>TYPE data[LEN]; int counter = 0; int total = 0;\<close> The public member
  \<^verbatim>\<open>const int length = LEN;\<close> never changes and no member function reads it: it is not a field
  of the state.
\<close>

record (overloaded) ('a, 'w) CircularBuffer =
  data :: "'a list"
  counter :: "'w word"
  total :: "'w word"

text \<open>
  The nested class \<^verbatim>\<open>iterator\<close>: \<^verbatim>\<open>const TYPE* ptr; int offset;\<close>. The pointer is the
  array it points to; no operation writes through it.
\<close>

record (overloaded) ('a, 'w) iterator =
  ptr :: "'a list"
  offset :: "'w word"

text \<open>\<^verbatim>\<open>iterator operator++() { ++offset; return *this; }\<close>\<close>

definition iterator_incr :: "('a, 'w::len) iterator \<Rightarrow> ('a, 'w) iterator option" where
  "iterator_incr it = map_option (\<lambda>off. it\<lparr>offset := off\<rparr>) (int_incr (offset it))"

text \<open>\<^verbatim>\<open>bool operator!=(const iterator& other) const { return offset != other.offset; }\<close>\<close>

definition iterator_neq :: "('a, 'w::len) iterator \<Rightarrow> ('a, 'w) iterator \<Rightarrow> bool" where
  "iterator_neq it other \<longleftrightarrow> offset it \<noteq> offset other"

text \<open>
  \<^verbatim>\<open>const TYPE& operator*() const { return ptr[offset % LEN]; }\<close>:
  \<^verbatim>\<open>offset\<close> becomes \<^verbatim>\<open>unsigned int\<close>, the remainder is unsigned.
\<close>

definition iterator_deref :: "'w::len word \<Rightarrow> ('a, 'w) iterator \<Rightarrow> 'a option" where
  "iterator_deref LEN it = arr_get (ptr it) (uint (offset it mod LEN))"

subsection \<open>Construction\<close>

text \<open>
  \<^verbatim>\<open>CircularBuffer() {}\<close> leaves \<^verbatim>\<open>data\<close> as the memory holds it: \<open>raw\<close> is that content.
\<close>

definition CircularBuffer_default :: "'a list \<Rightarrow> ('a, 'w::len) CircularBuffer" where
  "CircularBuffer_default raw = \<lparr>data = raw, counter = 0, total = 0\<rparr>"

text \<open>
  \<^verbatim>\<open>CircularBuffer(TYPE default_value) { for (int i = 0; i < LEN; ++i) data[i] = default_value; }\<close>
\<close>

function fill_loop :: "'w::len word \<Rightarrow> 'a list \<Rightarrow> 'w word \<Rightarrow> 'a \<Rightarrow> 'a list option" where
  "fill_loop LEN d i default_value =
     (if i < LEN then
        (case arr_set d (sint i) default_value of
           None \<Rightarrow> None
         | Some d' \<Rightarrow>
             (case int_incr i of
                None \<Rightarrow> None
              | Some i' \<Rightarrow> fill_loop LEN d' i' default_value))
      else Some d)"
  by pat_completeness auto
termination
proof (relation "measure (\<lambda>(LEN, d, i, v). unat LEN - unat i)", goal_cases)
  case 1
  show ?case
    by simp
next
  case (2 LEN d i default_value d' i')
  from \<open>int_incr i = Some i'\<close> have "i' = i + 1"
    by (simp add: int_incr_def split: if_splits)
  moreover from \<open>i < LEN\<close> have "unat i < unat LEN"
    by (simp add: word_less_nat_alt)
  moreover from \<open>i < LEN\<close> have "i + 1 \<noteq> 0"
    by (metis max_word_wrap word_order.extremum_strict)
  then have "unat (i + 1) = Suc (unat i)"
    by (simp add: unatSuc add.commute)
  ultimately show ?case
    by simp
qed

definition CircularBuffer_fill :: "'w::len word \<Rightarrow> 'a list \<Rightarrow> 'a \<Rightarrow> ('a, 'w) CircularBuffer option" where
  "CircularBuffer_fill LEN raw default_value =
     map_option (\<lambda>d. \<lparr>data = d, counter = 0, total = 0\<rparr>) (fill_loop LEN raw 0 default_value)"

subsection \<open>Indexed access\<close>

text \<open>
  \<^verbatim>\<open>TYPE operator[](const int index) const { return data[index % LEN]; }\<close> and the
  overload that returns \<^verbatim>\<open>TYPE&\<close>, through which the caller assigns. \<^verbatim>\<open>index % LEN\<close> is
  an \<^verbatim>\<open>unsigned int\<close>: \<^verbatim>\<open>index\<close> is converted first, so a negative \<^verbatim>\<open>index\<close> counts as
  \<^verbatim>\<open>index + 2^w\<close>.
\<close>

definition subscript :: "'w::len word \<Rightarrow> ('a, 'w) CircularBuffer \<Rightarrow> 'w word \<Rightarrow> 'a option" where
  "subscript LEN b index = arr_get (data b) (uint (index mod LEN))"

definition subscript_assign ::
  "'w::len word \<Rightarrow> ('a, 'w) CircularBuffer \<Rightarrow> 'w word \<Rightarrow> 'a \<Rightarrow> ('a, 'w) CircularBuffer option" where
  "subscript_assign LEN b index v =
     map_option (\<lambda>d. b\<lparr>data := d\<rparr>) (arr_set (data b) (uint (index mod LEN)) v)"

subsection \<open>Appending and the cursor\<close>

text \<open>
  \<^verbatim>\<open>void append(const TYPE value) { data[counter] = value; counter = (counter + 1) % LEN;
  if (total < LEN) ++total; }\<close>
\<close>

definition append_cb :: "'w::len word \<Rightarrow> ('a, 'w) CircularBuffer \<Rightarrow> 'a \<Rightarrow> ('a, 'w) CircularBuffer option" where
  "append_cb LEN b v =
     (case arr_set (data b) (sint (counter b)) v of
        None \<Rightarrow> None
      | Some d \<Rightarrow>
          (if total b < LEN then
             (case int_incr (total b) of
                None \<Rightarrow> None
              | Some t \<Rightarrow> Some \<lparr>data = d, counter = (counter b + 1) mod LEN, total = t\<rparr>)
           else Some \<lparr>data = d, counter = (counter b + 1) mod LEN, total = total b\<rparr>))"

text \<open>\<^verbatim>\<open>int index() const { return counter; }\<close>\<close>

definition index :: "('a, 'w::len) CircularBuffer \<Rightarrow> 'w word" where
  "index b = counter b"

text \<open>\<^verbatim>\<open>TYPE& current() { return data[counter]; }\<close>, read and assigned through.\<close>

definition current :: "('a, 'w::len) CircularBuffer \<Rightarrow> 'a option" where
  "current b = arr_get (data b) (sint (counter b))"

definition current_assign :: "('a, 'w::len) CircularBuffer \<Rightarrow> 'a \<Rightarrow> ('a, 'w) CircularBuffer option" where
  "current_assign b v = map_option (\<lambda>d. b\<lparr>data := d\<rparr>) (arr_set (data b) (sint (counter b)) v)"

text \<open>\<^verbatim>\<open>int count() const { return total; }\<close>\<close>

definition count :: "('a, 'w::len) CircularBuffer \<Rightarrow> 'w word" where
  "count b = total b"

text \<open>\<^verbatim>\<open>void prev() { counter = (counter + LEN - 1) % LEN; }\<close>\<close>

definition prev :: "'w::len word \<Rightarrow> ('a, 'w) CircularBuffer \<Rightarrow> ('a, 'w) CircularBuffer" where
  "prev LEN b = b\<lparr>counter := (counter b + LEN - 1) mod LEN\<rparr>"

text \<open>\<^verbatim>\<open>void next() { counter = (counter + 1) % LEN; }\<close>\<close>

definition next_cb :: "'w::len word \<Rightarrow> ('a, 'w) CircularBuffer \<Rightarrow> ('a, 'w) CircularBuffer" where
  "next_cb LEN b = b\<lparr>counter := (counter b + 1) mod LEN\<rparr>"

text \<open>
  \<^verbatim>\<open>void populate(const TYPE& first, const ARGS&... args) { append(first); populate(args...); }\<close>
  and its last step \<^verbatim>\<open>void populate(const TYPE& arg) { append(arg); }\<close>. The variadic
  constructor calls it on the members as their initialisers leave them.
\<close>

fun populate :: "'w::len word \<Rightarrow> ('a, 'w) CircularBuffer \<Rightarrow> 'a \<Rightarrow> 'a list \<Rightarrow> ('a, 'w) CircularBuffer option" where
  "populate LEN b arg [] = append_cb LEN b arg"
| "populate LEN b first (arg # args) =
     (case append_cb LEN b first of
        None \<Rightarrow> None
      | Some b' \<Rightarrow> populate LEN b' arg args)"

definition CircularBuffer_args :: "'w::len word \<Rightarrow> 'a list \<Rightarrow> 'a \<Rightarrow> 'a list \<Rightarrow> ('a, 'w) CircularBuffer option" where
  "CircularBuffer_args LEN raw first args = populate LEN (CircularBuffer_default raw) first args"

subsection \<open>Iteration\<close>

text \<open>
  \<^verbatim>\<open>iterator begin() const { return iterator(data, counter + LEN + LEN - total); }\<close> and
  \<^verbatim>\<open>iterator end() const { return iterator(data, counter + LEN + LEN); }\<close>. The sums are
  \<^verbatim>\<open>unsigned int\<close> and become the \<^verbatim>\<open>int\<close> parameter \<^verbatim>\<open>index\<close> of the iterator.
\<close>

definition begin_cb :: "'w::len word \<Rightarrow> ('a, 'w) CircularBuffer \<Rightarrow> ('a, 'w) iterator" where
  "begin_cb LEN b = \<lparr>ptr = data b, offset = counter b + LEN + LEN - total b\<rparr>"

definition end_cb :: "'w::len word \<Rightarrow> ('a, 'w) CircularBuffer \<Rightarrow> ('a, 'w) iterator" where
  "end_cb LEN b = \<lparr>ptr = data b, offset = counter b + LEN + LEN\<rparr>"

text \<open>
  The range-based \<^verbatim>\<open>for (TYPE x : buffer)\<close> that \<^verbatim>\<open>begin\<close> and \<^verbatim>\<open>end\<close> exist for is
  \<^verbatim>\<open>for (auto it = begin(), stop = end(); it != stop; ++it) { TYPE x = *it; ... }\<close>.
  \<open>range_for\<close> returns the values \<^verbatim>\<open>x\<close> takes, in order.
\<close>

function range_for :: "'w::len word \<Rightarrow> ('a, 'w) iterator \<Rightarrow> ('a, 'w) iterator \<Rightarrow> 'a list option" where
  "range_for LEN it stop =
     (if iterator_neq it stop then
        (case iterator_deref LEN it of
           None \<Rightarrow> None
         | Some x \<Rightarrow>
             (case iterator_incr it of
                None \<Rightarrow> None
              | Some it' \<Rightarrow> map_option ((#) x) (range_for LEN it' stop)))
      else Some [])"
  by pat_completeness auto
termination
proof (relation "measure (\<lambda>(LEN, it, stop). unat (offset stop - offset it))", goal_cases)
  case 1
  show ?case
    by simp
next
  case (2 LEN it stop x it')
  from \<open>iterator_incr it = Some it'\<close> have "offset it' = offset it + 1"
    by (auto simp: iterator_incr_def int_incr_def split: if_splits)
  then have "offset stop - offset it' = (offset stop - offset it) - 1"
    by simp
  moreover from \<open>iterator_neq it stop\<close> have "offset stop - offset it \<noteq> 0"
    by (simp add: iterator_neq_def)
  then have "unat ((offset stop - offset it) - 1) < unat (offset stop - offset it)"
    by (simp add: unat_minus_one unat_gt_0)
  ultimately show ?case
    by (simp only: in_measure prod.case)
qed

definition iterate :: "'w::len word \<Rightarrow> ('a, 'w) CircularBuffer \<Rightarrow> 'a list option" where
  "iterate LEN b = range_for LEN (begin_cb LEN b) (end_cb LEN b)"

subsection \<open>Minimum and maximum\<close>

text \<open>
  \<^verbatim>\<open>TYPE value = data[0]; for (int i = 1; i < LEN; ++i) { if (data[i] < value) value = data[i]; }
  return value;\<close> and the same with \<^verbatim>\<open>>\<close> for \<^verbatim>\<open>maximum\<close>. The \<^verbatim>\<open>static_assert\<close> admits
  the arithmetic element types, \<^verbatim>\<open>float\<close> and \<^verbatim>\<open>double\<close> among them. \<^verbatim>\<open><\<close> is the comparison of
  the element type, whatever it is: a linear order on an integer type, the comparison of
  \<open>'a fp\<close> on a floating-point type.
\<close>

function minimum_loop :: "'w::len word \<Rightarrow> ('a::ord) list \<Rightarrow> 'w word \<Rightarrow> 'a \<Rightarrow> 'a option" where
  "minimum_loop LEN d i val =
     (if i < LEN then
        (case arr_get d (sint i) of
           None \<Rightarrow> None
         | Some x \<Rightarrow>
             (case int_incr i of
                None \<Rightarrow> None
              | Some i' \<Rightarrow> minimum_loop LEN d i' (if x < val then x else val)))
      else Some val)"
  by pat_completeness auto
termination
proof (relation "measure (\<lambda>(LEN, d, i, v). unat LEN - unat i)", goal_cases)
  case 1
  show ?case
    by simp
next
  case (2 LEN d i val x i')
  from \<open>int_incr i = Some i'\<close> have "i' = i + 1"
    by (simp add: int_incr_def split: if_splits)
  moreover from \<open>i < LEN\<close> have "unat i < unat LEN"
    by (simp add: word_less_nat_alt)
  moreover from \<open>i < LEN\<close> have "i + 1 \<noteq> 0"
    by (metis max_word_wrap word_order.extremum_strict)
  then have "unat (i + 1) = Suc (unat i)"
    by (simp add: unatSuc add.commute)
  ultimately show ?case
    by simp
qed

definition minimum :: "'w::len word \<Rightarrow> ('a::ord, 'w) CircularBuffer \<Rightarrow> 'a option" where
  "minimum LEN b =
     (case arr_get (data b) 0 of
        None \<Rightarrow> None
      | Some val \<Rightarrow> minimum_loop LEN (data b) 1 val)"

function maximum_loop :: "'w::len word \<Rightarrow> ('a::ord) list \<Rightarrow> 'w word \<Rightarrow> 'a \<Rightarrow> 'a option" where
  "maximum_loop LEN d i val =
     (if i < LEN then
        (case arr_get d (sint i) of
           None \<Rightarrow> None
         | Some x \<Rightarrow>
             (case int_incr i of
                None \<Rightarrow> None
              | Some i' \<Rightarrow> maximum_loop LEN d i' (if x > val then x else val)))
      else Some val)"
  by pat_completeness auto
termination
proof (relation "measure (\<lambda>(LEN, d, i, v). unat LEN - unat i)", goal_cases)
  case 1
  show ?case
    by simp
next
  case (2 LEN d i val x i')
  from \<open>int_incr i = Some i'\<close> have "i' = i + 1"
    by (simp add: int_incr_def split: if_splits)
  moreover from \<open>i < LEN\<close> have "unat i < unat LEN"
    by (simp add: word_less_nat_alt)
  moreover from \<open>i < LEN\<close> have "i + 1 \<noteq> 0"
    by (metis max_word_wrap word_order.extremum_strict)
  then have "unat (i + 1) = Suc (unat i)"
    by (simp add: unatSuc add.commute)
  ultimately show ?case
    by simp
qed

definition maximum :: "'w::len word \<Rightarrow> ('a::ord, 'w) CircularBuffer \<Rightarrow> 'a option" where
  "maximum LEN b =
     (case arr_get (data b) 0 of
        None \<Rightarrow> None
      | Some val \<Rightarrow> maximum_loop LEN (data b) 1 val)"

section \<open>Well-formed instantiations and states\<close>

text \<open>
  \<^verbatim>\<open>static_assert(LEN > 0, ...)\<close> rejects an empty buffer, and \<^verbatim>\<open>TYPE data[LEN]\<close> has
  \<^verbatim>\<open>LEN\<close> elements: the two facts every operation below relies on.
\<close>

definition storage_ok :: "'w::len word \<Rightarrow> ('a, 'w) CircularBuffer \<Rightarrow> bool" where
  "storage_ok LEN b \<longleftrightarrow> 0 < LEN \<and> length (data b) = unat LEN"

text \<open>
  The class keeps the capacity in \<^verbatim>\<open>const int length = LEN;\<close> and the cursor and the count,
  which range up to \<^verbatim>\<open>LEN\<close>, in \<^verbatim>\<open>int counter\<close> and \<^verbatim>\<open>int total\<close>: an instantiation is
  well-formed when \<^verbatim>\<open>LEN\<close> is positive and an \<^verbatim>\<open>int\<close> holds it.
\<close>

definition cap_ok :: "'w::len word \<Rightarrow> bool" where
  "cap_ok LEN \<longleftrightarrow> 0 < LEN \<and> LEN \<le> INT_MAX"

text \<open>
  The state invariant: the array has \<^verbatim>\<open>LEN\<close> elements, \<^verbatim>\<open>0 <= counter < LEN\<close> and
  \<^verbatim>\<open>0 <= total <= LEN\<close>, the two members read as the \<^verbatim>\<open>int\<close>s they are.
\<close>

definition invar :: "'w::len word \<Rightarrow> ('a, 'w) CircularBuffer \<Rightarrow> bool" where
  "invar LEN b \<longleftrightarrow>
     length (data b) = unat LEN
     \<and> 0 \<le> sint (counter b) \<and> sint (counter b) < uint LEN
     \<and> 0 \<le> sint (total b) \<and> sint (total b) \<le> uint LEN"

text \<open>
  \<^verbatim>\<open>begin()\<close> and \<^verbatim>\<open>end()\<close> hand \<^verbatim>\<open>counter + LEN + LEN\<close>, at most \<^verbatim>\<open>3 * LEN - 1\<close>, to the
  \<^verbatim>\<open>int offset\<close> of an iterator: an \<^verbatim>\<open>int\<close> holds every offset when \<^verbatim>\<open>3 * LEN - 1 <= INT_MAX\<close>.
\<close>

definition iter_cap_ok :: "'w::len word \<Rightarrow> bool" where
  "iter_cap_ok LEN \<longleftrightarrow> 0 < LEN \<and> 3 * uint LEN \<le> 2 ^ (LENGTH('w) - 1)"

section \<open>Sequences of calls\<close>

text \<open>\<open>appends LEN b vs\<close> is \<^verbatim>\<open>b.append(v1); ...; b.append(vN);\<close> for \<open>vs = [v1, ..., vN]\<close>.\<close>

fun appends :: "'w::len word \<Rightarrow> ('a, 'w) CircularBuffer \<Rightarrow> 'a list \<Rightarrow> ('a, 'w) CircularBuffer option" where
  "appends LEN b [] = Some b"
| "appends LEN b (v # vs) =
     (case append_cb LEN b v of
        None \<Rightarrow> None
      | Some b' \<Rightarrow> appends LEN b' vs)"

text \<open>
  The public member functions as one type of calls. \<open>call\<close> returns the state after the
  call, \<open>None\<close> when the call runs into undefined behaviour. A \<^verbatim>\<open>const\<close> member function
  leaves the object as it is. The type \<open>'i\<close> of an index is \<^verbatim>\<open>int\<close>, that is \<open>'w word\<close>.
\<close>

datatype ('a, 'i) member_call =
    Subscript 'i
  | Subscript_assign 'i 'a
  | Append 'a
  | Index
  | Current
  | Current_assign 'a
  | Count
  | Prev
  | Next
  | Iterate
  | Minimum
  | Maximum

fun call :: "'w::len word \<Rightarrow> ('a::linorder, 'w) CircularBuffer \<Rightarrow> ('a, 'w word) member_call
    \<Rightarrow> ('a, 'w) CircularBuffer option" where
  "call LEN b (Subscript i) = map_option (\<lambda>_. b) (subscript LEN b i)"
| "call LEN b (Subscript_assign i v) = subscript_assign LEN b i v"
| "call LEN b (Append v) = append_cb LEN b v"
| "call LEN b Index = Some b"
| "call LEN b Current = map_option (\<lambda>_. b) (current b)"
| "call LEN b (Current_assign v) = current_assign b v"
| "call LEN b Count = Some b"
| "call LEN b Prev = Some (prev LEN b)"
| "call LEN b Next = Some (next_cb LEN b)"
| "call LEN b Iterate = map_option (\<lambda>_. b) (iterate LEN b)"
| "call LEN b Minimum = map_option (\<lambda>_. b) (minimum LEN b)"
| "call LEN b Maximum = map_option (\<lambda>_. b) (maximum LEN b)"

fun calls :: "'w::len word \<Rightarrow> ('a::linorder, 'w) CircularBuffer \<Rightarrow> ('a, 'w word) member_call list
    \<Rightarrow> ('a, 'w) CircularBuffer option" where
  "calls LEN b [] = Some b"
| "calls LEN b (c # cs) =
     (case call LEN b c of
        None \<Rightarrow> None
      | Some b' \<Rightarrow> calls LEN b' cs)"

section \<open>Arrays, remainders and signed values\<close>

text \<open>The loops are unfolded where a proof asks for it, not by the simplifier on its own.\<close>

declare fill_loop.simps [simp del] range_for.simps [simp del]
  minimum_loop.simps [simp del] maximum_loop.simps [simp del]

lemma arr_get_nat: "n < length xs \<Longrightarrow> arr_get xs (int n) = Some (xs ! n)"
  by (simp add: arr_get_def)

lemma arr_set_nat: "n < length xs \<Longrightarrow> arr_set xs (int n) v = Some (xs[n := v])"
  by (simp add: arr_set_def)

lemma uint_mod_less:
  fixes x LEN :: "'w::len word"
  assumes "0 < LEN"
  shows "uint (x mod LEN) = int (unat x mod unat LEN)" and "unat x mod unat LEN < unat LEN"
proof -
  show "uint (x mod LEN) = int (unat x mod unat LEN)"
    by (simp only: uint_nat unat_mod_distrib)
  from assms have "0 < unat LEN"
    by (simp add: word_less_nat_alt)
  then show "unat x mod unat LEN < unat LEN"
    by simp
qed

section \<open>Indexed access\<close>

lemma subscript_slot:
  assumes "storage_ok LEN b"
  shows "subscript LEN b i = Some (data b ! (unat i mod unat LEN))"
proof -
  from assms have "0 < LEN" and len: "length (data b) = unat LEN"
    by (simp_all add: storage_ok_def)
  then have "unat i mod unat LEN < length (data b)"
    by (simp only: uint_mod_less(2))
  then have "arr_get (data b) (int (unat i mod unat LEN)) = Some (data b ! (unat i mod unat LEN))"
    by (rule arr_get_nat)
  with \<open>0 < LEN\<close> show ?thesis
    by (simp only: subscript_def uint_mod_less(1))
qed

lemma subscript_assign_slot:
  assumes "storage_ok LEN b"
  shows "subscript_assign LEN b i v = Some (b\<lparr>data := (data b)[unat i mod unat LEN := v]\<rparr>)"
proof -
  from assms have "0 < LEN" and len: "length (data b) = unat LEN"
    by (simp_all add: storage_ok_def)
  then have "unat i mod unat LEN < length (data b)"
    by (simp only: uint_mod_less(2))
  then have "arr_set (data b) (int (unat i mod unat LEN)) v = Some ((data b)[unat i mod unat LEN := v])"
    by (rule arr_set_nat)
  with \<open>0 < LEN\<close> show ?thesis
    by (simp only: subscript_assign_def uint_mod_less(1) option.map)
qed

text \<open>
  Adding \<^verbatim>\<open>LEN\<close> to an index keeps the slot when the unsigned sum does not wrap, and also
  when \<^verbatim>\<open>LEN\<close> divides \<open>2 ^ LENGTH('w)\<close>, the modulus of the wrap.
\<close>

lemma slot_periodic:
  fixes i LEN :: "'w::len word"
  assumes "unat i + unat LEN < 2 ^ LENGTH('w) \<or> unat LEN dvd 2 ^ LENGTH('w)"
  shows "unat (i + LEN) mod unat LEN = unat i mod unat LEN"
  using assms
proof
  assume "unat i + unat LEN < 2 ^ LENGTH('w)"
  then have "unat (i + LEN) = unat i + unat LEN"
    by (simp only: unat_add_lem)
  then show ?thesis
    by simp
next
  assume "unat LEN dvd 2 ^ LENGTH('w)"
  then have "(unat i + unat LEN) mod 2 ^ LENGTH('w) mod unat LEN = (unat i + unat LEN) mod unat LEN"
    by (rule mod_mod_cancel)
  then show ?thesis
    by (simp add: unat_word_ariths)
qed

section \<open>Signed values and well-formed capacities\<close>

lemma sint_nonneg_uint:
  fixes w :: "'w::len word"
  assumes "0 \<le> sint w"
  shows "uint w = sint w"
proof -
  have "sint w < 2 ^ (LENGTH('w) - Suc 0)"
    by (rule sint_less)
  also have "(2::int) ^ (LENGTH('w) - Suc 0) \<le> 2 ^ LENGTH('w)"
    by (rule power_increasing) simp_all
  finally have "take_bit LENGTH('w) (sint w) = sint w"
    using assms by (simp add: take_bit_int_eq_self)
  then show ?thesis
    by (simp add: uint_sint)
qed

lemma sint_small:
  fixes w :: "'w::len word"
  assumes "uint w < 2 ^ (LENGTH('w) - 1)"
  shows "sint w = uint w"
proof -
  have "- (2 ^ (LENGTH('w) - 1)) \<le> (0::int)"
    by simp
  also have "0 \<le> uint w"
    by simp
  finally show ?thesis
    using assms by (simp add: sint_uint signed_take_bit_int_eq_self)
qed

lemma uint_INT_MAX: "uint (INT_MAX :: 'w::len word) = 2 ^ (LENGTH('w) - 1) - 1"
proof -
  have p: "uint ((2::'w word) ^ (LENGTH('w) - 1)) = 2 ^ (LENGTH('w) - 1)"
    by (rule uint_2p) (simp add: word_gt_0)
  then have "uint (1::'w word) \<le> uint ((2::'w word) ^ (LENGTH('w) - 1))"
    by simp
  then have "uint ((2::'w word) ^ (LENGTH('w) - 1) - 1)
      = uint ((2::'w word) ^ (LENGTH('w) - 1)) - uint (1::'w word)"
    by (simp only: uint_sub_lem)
  with p show ?thesis
    by (simp add: INT_MAX_def)
qed

text \<open>What a well-formed capacity gives.\<close>

lemma cap_ok_bound:
  fixes LEN :: "'w::len word"
  assumes "cap_ok LEN"
  shows "uint LEN < 2 ^ (LENGTH('w) - 1)"
proof -
  from assms have "uint LEN \<le> uint (INT_MAX :: 'w word)"
    by (simp add: cap_ok_def word_le_def)
  also have "\<dots> < 2 ^ (LENGTH('w) - 1)"
    by (simp add: uint_INT_MAX)
  finally show ?thesis .
qed

lemma cap_ok_pos: "cap_ok LEN \<Longrightarrow> 0 < unat LEN"
  by (simp add: cap_ok_def word_less_nat_alt)

lemma sint_below_cap:
  fixes x LEN :: "'w::len word"
  assumes "cap_ok LEN" and "x \<le> LEN"
  shows "sint x = uint x"
proof -
  from assms(2) have "uint x \<le> uint LEN"
    by (simp add: word_le_def)
  also note cap_ok_bound [OF assms(1)]
  finally show ?thesis
    by (rule sint_small)
qed

lemma invar_unsigned:
  fixes LEN :: "'w::len word"
  assumes "cap_ok LEN"
  shows "invar LEN b \<longleftrightarrow> length (data b) = unat LEN \<and> counter b < LEN \<and> total b \<le> LEN"
proof
  assume inv: "invar LEN b"
  then have "uint (counter b) = sint (counter b)" and "uint (total b) = sint (total b)"
    by (simp_all add: invar_def sint_nonneg_uint)
  with inv show "length (data b) = unat LEN \<and> counter b < LEN \<and> total b \<le> LEN"
    by (simp add: invar_def word_less_def word_le_def)
next
  assume r: "length (data b) = unat LEN \<and> counter b < LEN \<and> total b \<le> LEN"
  then have "counter b \<le> LEN" and "total b \<le> LEN"
    by (simp_all add: order_less_imp_le)
  then have "sint (counter b) = uint (counter b)" and "sint (total b) = uint (total b)"
    by (simp_all only: sint_below_cap [OF assms])
  with r show "invar LEN b"
    by (simp add: invar_def word_less_def word_le_def)
qed

lemma below_cap_not_INT_MAX:
  fixes x LEN :: "'w::len word"
  assumes "cap_ok LEN" and "x < LEN"
  shows "x \<noteq> INT_MAX"
  using assms by (auto simp: cap_ok_def)

lemma unat_succ:
  fixes i n :: "'w::len word"
  assumes "i < n"
  shows "unat (i + 1) = Suc (unat i)"
proof -
  from assms have "unat i < unat n"
    by (simp add: word_less_nat_alt)
  moreover have "unat n < 2 ^ LENGTH('w)"
    by (rule unsigned_less)
  ultimately have "unat i + unat (1::'w word) < 2 ^ LENGTH('w)"
    by (simp only: unat_1)
  then have "unat (i + 1) = unat i + unat (1::'w word)"
    by (simp only: unat_add_lem)
  then show ?thesis
    by simp
qed

text \<open>\<^verbatim>\<open>append\<close> on a state that satisfies the invariant.\<close>

lemma append_cb_invar:
  fixes LEN :: "'w::len word"
  assumes cap: "cap_ok LEN" and inv: "invar LEN b"
  shows "append_cb LEN b v = Some \<lparr>data = (data b)[unat (counter b) := v],
      counter = (counter b + 1) mod LEN,
      total = (if total b < LEN then total b + 1 else total b)\<rparr>"
proof -
  from cap inv have len: "length (data b) = unat LEN" and c: "counter b < LEN" and t: "total b \<le> LEN"
    by (simp_all add: invar_unsigned)
  from c have "counter b \<le> LEN"
    by (rule order_less_imp_le)
  then have "sint (counter b) = int (unat (counter b))"
    by (simp only: sint_below_cap [OF cap] uint_nat)
  moreover from c len have "unat (counter b) < length (data b)"
    by (simp add: word_less_nat_alt)
  ultimately have "arr_set (data b) (sint (counter b)) v = Some ((data b)[unat (counter b) := v])"
    by (simp only: arr_set_nat)
  moreover have "total b < LEN \<Longrightarrow> int_incr (total b) = Some (total b + 1)"
    using cap by (simp add: int_incr_def below_cap_not_INT_MAX [of LEN])
  ultimately show ?thesis
    by (simp add: append_cb_def)
qed

lemma append_cb_nat:
  fixes LEN :: "'w::len word"
  assumes cap: "cap_ok LEN" and inv: "invar LEN b" and app: "append_cb LEN b v = Some b'"
  shows "invar LEN b'"
    and "data b' = (data b)[unat (counter b) := v]"
    and "unat (counter b') = Suc (unat (counter b)) mod unat LEN"
    and "unat (total b') = min (Suc (unat (total b))) (unat LEN)"
proof -
  from cap inv have len: "length (data b) = unat LEN" and c: "counter b < LEN" and t: "total b \<le> LEN"
    by (simp_all add: invar_unsigned)
  from app have b': "b' = \<lparr>data = (data b)[unat (counter b) := v],
      counter = (counter b + 1) mod LEN,
      total = (if total b < LEN then total b + 1 else total b)\<rparr>"
    by (simp add: append_cb_invar [OF cap inv])
  then show "data b' = (data b)[unat (counter b) := v]"
    by simp
  from cap have pos: "0 < LEN"
    by (simp add: cap_ok_def)
  from b' c show cnt: "unat (counter b') = Suc (unat (counter b)) mod unat LEN"
    by (simp add: unat_mod_distrib unat_succ)
  show tot: "unat (total b') = min (Suc (unat (total b))) (unat LEN)"
  proof (cases "total b < LEN")
    case True
    then have "unat (total b) < unat LEN"
      by (simp add: word_less_nat_alt)
    with True b' show ?thesis
      by (simp add: unat_succ)
  next
    case False
    with t have "total b = LEN"
      by simp
    with b' show ?thesis
      by simp
  qed
  from cnt cap_ok_pos [OF cap] have "unat (counter b') < unat LEN"
    by simp
  moreover from tot have "unat (total b') \<le> unat LEN"
    by simp
  moreover from b' len have "length (data b') = unat LEN"
    by simp
  ultimately show "invar LEN b'"
    using cap by (simp add: invar_unsigned word_less_nat_alt word_le_nat_alt)
qed

section \<open>Appending to a fresh buffer\<close>

text \<open>Where the cursor and the count are after the appends \<open>vs\<close>, and what the slots hold.\<close>

lemma appends_snoc:
  "appends LEN b (vs @ [v]) =
     (case appends LEN b vs of None \<Rightarrow> None | Some b' \<Rightarrow> append_cb LEN b' v)"
  by (induction vs arbitrary: b) (simp_all split: option.splits)

lemma default_invar:
  fixes LEN :: "'w::len word"
  assumes "cap_ok LEN" and "length raw = unat LEN"
  shows "invar LEN (CircularBuffer_default raw)"
  using assms by (simp add: invar_unsigned CircularBuffer_default_def cap_ok_def)

lemma appends_history:
  fixes LEN :: "'w::len word"
  assumes cap: "cap_ok LEN" and raw: "length raw = unat LEN"
  shows "\<exists>b. appends LEN (CircularBuffer_default raw) vs = Some b
    \<and> invar LEN b
    \<and> unat (counter b) = length vs mod unat LEN
    \<and> unat (total b) = min (length vs) (unat LEN)
    \<and> (\<forall>j < length vs. length vs \<le> j + unat LEN \<longrightarrow> data b ! (j mod unat LEN) = vs ! j)"
proof (induction vs rule: rev_induct)
  case Nil
  from cap raw show ?case
    by (simp add: default_invar) (simp add: CircularBuffer_default_def)
next
  case (snoc v vs)
  then obtain b where run: "appends LEN (CircularBuffer_default raw) vs = Some b"
    and inv: "invar LEN b"
    and cnt: "unat (counter b) = length vs mod unat LEN"
    and tot: "unat (total b) = min (length vs) (unat LEN)"
    and old: "\<forall>j < length vs. length vs \<le> j + unat LEN \<longrightarrow> data b ! (j mod unat LEN) = vs ! j"
    by blast
  from cap inv obtain b' where app: "append_cb LEN b v = Some b'"
    by (simp add: append_cb_invar)
  note post = append_cb_nat [OF cap inv app]
  from cap inv have len: "length (data b) = unat LEN"
    by (simp add: invar_unsigned)
  have pos: "0 < unat LEN"
    using cap by (rule cap_ok_pos)
  have "unat (counter b') = length (vs @ [v]) mod unat LEN"
    using post(3) cnt by (simp add: mod_Suc_eq)
  moreover have "unat (total b') = min (length (vs @ [v])) (unat LEN)"
    using post(4) tot by simp
  moreover have "data b' ! (j mod unat LEN) = (vs @ [v]) ! j"
    if j: "j < length (vs @ [v])" and near: "length (vs @ [v]) \<le> j + unat LEN" for j
  proof (cases "j = length vs")
    case True
    with post(2) cnt len pos show ?thesis
      by simp
  next
    case False
    with j have lt: "j < length vs"
      by simp
    with near have diff: "length vs - j < unat LEN" and "0 < length vs - j"
      by simp_all
    have "j mod unat LEN \<noteq> length vs mod unat LEN"
    proof
      assume "j mod unat LEN = length vs mod unat LEN"
      then have "(length vs - j) mod unat LEN = 0"
        using lt by (metis less_imp_le_nat mod_eq_dvd_iff_nat dvd_imp_mod_0)
      with diff \<open>0 < length vs - j\<close> show False
        by simp
    qed
    then have "data b' ! (j mod unat LEN) = data b ! (j mod unat LEN)"
      using post(2) cnt by simp
    also from old lt near have "\<dots> = vs ! j"
      by simp
    finally show ?thesis
      using lt by (simp add: nth_append)
  qed
  ultimately show ?case
    using run app post(1) by (simp add: appends_snoc)
qed

section \<open>Iteration\<close>

lemma iter_cap_ok_cap_ok:
  fixes LEN :: "'w::len word"
  assumes "iter_cap_ok LEN"
  shows "cap_ok LEN"
proof -
  from assms have pos: "0 < LEN" and three: "3 * uint LEN \<le> 2 ^ (LENGTH('w) - 1)"
    by (simp_all add: iter_cap_ok_def)
  from pos have "0 < uint LEN"
    by (simp add: word_less_def)
  with three have "uint LEN \<le> 2 ^ (LENGTH('w) - 1) - 1"
    by linarith
  then have "uint LEN \<le> uint (INT_MAX :: 'w word)"
    by (simp only: uint_INT_MAX)
  with pos show ?thesis
    by (simp add: cap_ok_def word_le_def)
qed

lemma arr_get_mod:
  fixes x LEN :: "'w::len word"
  assumes "0 < LEN" and "length d = unat LEN"
  shows "arr_get d (uint (x mod LEN)) = Some (d ! (unat x mod unat LEN))"
proof -
  from assms have "unat x mod unat LEN < length d"
    by (simp only: uint_mod_less(2))
  then have "arr_get d (int (unat x mod unat LEN)) = Some (d ! (unat x mod unat LEN))"
    by (rule arr_get_nat)
  with assms(1) show ?thesis
    by (simp only: uint_mod_less(1))
qed

text \<open>
  The loop from offset \<open>off\<close> to offset \<open>off + n\<close>, when an \<^verbatim>\<open>int\<close> holds both: it returns the
  \<open>n\<close> slots \<open>off mod LEN\<close>, \<open>(off + 1) mod LEN\<close>, ...
\<close>

lemma unat_INT_MAX: "unat (INT_MAX :: 'w::len word) = 2 ^ (LENGTH('w) - 1) - 1"
proof -
  have "int (unat (INT_MAX :: 'w word)) = int (2 ^ (LENGTH('w) - 1) - 1)"
    by (simp only: uint_INT_MAX flip: uint_nat) simp
  then show ?thesis
    by (simp only: of_nat_eq_iff)
qed

lemma range_for_window:
  fixes LEN off :: "'w::len word"
  assumes pos: "0 < LEN" and len: "length d = unat LEN"
    and bound: "unat off + n < 2 ^ (LENGTH('w) - 1)"
  shows "range_for LEN \<lparr>ptr = d, offset = off\<rparr> \<lparr>ptr = d', offset = off + of_nat n\<rparr>
    = Some (map (\<lambda>k. d ! ((unat off + k) mod unat LEN)) [0..<n])"
  using bound
proof (induction n arbitrary: off)
  case 0
  show ?case
    by (subst range_for.simps) (simp add: iterator_neq_def)
next
  case (Suc n)
  have half: "(2::nat) ^ (LENGTH('w) - 1) \<le> 2 ^ LENGTH('w)"
    by (rule power_increasing) simp_all
  with Suc.prems have "Suc n < 2 ^ LENGTH('w)"
    by linarith
  then have "(of_nat (Suc n) :: 'w word) \<noteq> 0"
    by (intro of_nat_neq_0) simp_all
  then have neq: "iterator_neq \<lparr>ptr = d, offset = off\<rparr> \<lparr>ptr = d', offset = off + of_nat (Suc n)\<rparr>"
    by (simp add: iterator_neq_def)
  from pos len have deref: "iterator_deref LEN \<lparr>ptr = d, offset = off\<rparr> = Some (d ! (unat off mod unat LEN))"
    by (simp add: iterator_deref_def arr_get_mod)
  from Suc.prems have "unat off \<noteq> unat (INT_MAX :: 'w word)"
    by (simp only: unat_INT_MAX)
  then have "off \<noteq> INT_MAX"
    by auto
  then have incr: "iterator_incr \<lparr>ptr = d, offset = off\<rparr> = Some \<lparr>ptr = d, offset = off + 1\<rparr>"
    by (simp add: iterator_incr_def int_incr_def)
  from Suc.prems half have "unat off + unat (1 :: 'w word) < 2 ^ LENGTH('w)"
    by (simp only: unat_1)
  then have "unat (off + 1) = unat off + unat (1 :: 'w word)"
    by (simp only: unat_add_lem)
  then have step: "unat (off + 1) = Suc (unat off)"
    by simp
  with Suc.prems have "unat (off + 1) + n < 2 ^ (LENGTH('w) - 1)"
    by simp
  then have "range_for LEN \<lparr>ptr = d, offset = off + 1\<rparr> \<lparr>ptr = d', offset = off + 1 + of_nat n\<rparr>
    = Some (map (\<lambda>k. d ! ((unat (off + 1) + k) mod unat LEN)) [0..<n])"
    by (rule Suc.IH)
  moreover have "off + 1 + of_nat n = off + of_nat (Suc n)"
    by simp
  ultimately have rest: "range_for LEN \<lparr>ptr = d, offset = off + 1\<rparr> \<lparr>ptr = d', offset = off + of_nat (Suc n)\<rparr>
    = Some (map (\<lambda>k. d ! ((unat off + Suc k) mod unat LEN)) [0..<n])"
    using step by simp
  show ?case
    by (subst range_for.simps) (simp only: neq deref incr rest if_True option.case option.map map_upt_Suc add_0_right)
qed

text \<open>
  Iterating a buffer: the \<^verbatim>\<open>total\<close> slots that end just before the cursor, whatever they hold.
\<close>

lemma iterate_window:
  fixes LEN :: "'w::len word"
  assumes cap: "iter_cap_ok LEN" and inv: "invar LEN b"
  shows "iterate LEN b = Some (map
    (\<lambda>k. data b ! ((unat (counter b) + 2 * unat LEN - unat (total b) + k) mod unat LEN))
    [0..<unat (total b)])"
proof -
  note cap' = iter_cap_ok_cap_ok [OF cap]
  from cap' inv have len: "length (data b) = unat LEN" and c: "counter b < LEN" and t: "total b \<le> LEN"
    by (simp_all add: invar_unsigned)
  from cap have pos: "0 < LEN" and "3 * uint LEN \<le> 2 ^ (LENGTH('w) - 1)"
    by (simp_all add: iter_cap_ok_def)
  then have "int (3 * unat LEN) \<le> int (2 ^ (LENGTH('w) - 1))"
    by (simp add: uint_nat [symmetric])
  then have three: "3 * unat LEN \<le> 2 ^ (LENGTH('w) - 1)"
    by (simp only: of_nat_le_iff)
  have half: "(2::nat) ^ (LENGTH('w) - 1) \<le> 2 ^ LENGTH('w)"
    by (rule power_increasing) simp_all
  from c have cn: "unat (counter b) < unat LEN"
    by (simp add: word_less_nat_alt)
  from t have tn: "unat (total b) \<le> unat LEN"
    by (simp add: word_le_nat_alt)
  from cn three half have "unat (counter b) + unat LEN < 2 ^ LENGTH('w)"
    by linarith
  then have s1: "unat (counter b + LEN) = unat (counter b) + unat LEN"
    by (simp only: unat_add_lem)
  from cn three half have "unat (counter b + LEN) + unat LEN < 2 ^ LENGTH('w)"
    by (simp only: s1)
  then have "unat (counter b + LEN + LEN) = unat (counter b + LEN) + unat LEN"
    by (simp only: unat_add_lem)
  with s1 have s2: "unat (counter b + LEN + LEN) = unat (counter b) + 2 * unat LEN"
    by simp
  with tn have "total b \<le> counter b + LEN + LEN"
    by (simp add: word_le_nat_alt)
  then have "unat (counter b + LEN + LEN - total b) = unat (counter b + LEN + LEN) - unat (total b)"
    by (rule unat_sub)
  with s2 have s3: "unat (counter b + LEN + LEN - total b) = unat (counter b) + 2 * unat LEN - unat (total b)"
    by simp
  with cn tn three have "unat (counter b + LEN + LEN - total b) + unat (total b) < 2 ^ (LENGTH('w) - 1)"
    by linarith
  with pos len have "range_for LEN \<lparr>ptr = data b, offset = counter b + LEN + LEN - total b\<rparr>
      \<lparr>ptr = data b, offset = counter b + LEN + LEN - total b + of_nat (unat (total b))\<rparr>
    = Some (map (\<lambda>k. data b ! ((unat (counter b + LEN + LEN - total b) + k) mod unat LEN))
        [0..<unat (total b)])"
    by (rule range_for_window)
  moreover have "counter b + LEN + LEN - total b + of_nat (unat (total b)) = counter b + LEN + LEN"
    by simp
  ultimately show ?thesis
    by (simp only: iterate_def begin_cb_def end_cb_def s3)
qed

lemma window_index:
  fixes N L t k :: nat
  assumes "t \<le> L" and "t \<le> N"
  shows "(N mod L + 2 * L - t + k) mod L = (N - t + k) mod L"
proof -
  from assms have "N mod L + 2 * L - t + k = N mod L + (2 * L - t + k)"
    by simp
  also have "\<dots> mod L = (N + (2 * L - t + k)) mod L"
    by (rule mod_add_left_eq)
  also from assms have "N + (2 * L - t + k) = (N - t + k) + 2 * L"
    by simp
  also have "\<dots> mod L = (N - t + k) mod L"
    by simp
  finally show ?thesis .
qed

section \<open>Moving the cursor\<close>

lemma next_cb_nat:
  fixes LEN :: "'w::len word"
  assumes cap: "cap_ok LEN" and inv: "invar LEN b"
  shows "invar LEN (next_cb LEN b)"
    and "unat (counter (next_cb LEN b)) = Suc (unat (counter b)) mod unat LEN"
proof -
  from cap inv have len: "length (data b) = unat LEN" and c: "counter b < LEN" and t: "total b \<le> LEN"
    by (simp_all add: invar_unsigned)
  from c show cnt: "unat (counter (next_cb LEN b)) = Suc (unat (counter b)) mod unat LEN"
    by (simp add: next_cb_def unat_mod_distrib unat_succ)
  with cap_ok_pos [OF cap] have "unat (counter (next_cb LEN b)) < unat LEN"
    by simp
  with cap len t show "invar LEN (next_cb LEN b)"
    by (simp add: invar_unsigned word_less_nat_alt) (simp add: next_cb_def)
qed

lemma prev_nat:
  fixes LEN :: "'w::len word"
  assumes cap: "cap_ok LEN" and inv: "invar LEN b"
  shows "invar LEN (prev LEN b)"
    and "unat (counter (prev LEN b)) = (unat (counter b) + unat LEN - 1) mod unat LEN"
proof -
  from cap inv have len: "length (data b) = unat LEN" and c: "counter b < LEN" and t: "total b \<le> LEN"
    by (simp_all add: invar_unsigned)
  from c have cn: "unat (counter b) < unat LEN"
    by (simp add: word_less_nat_alt)
  note pos = cap_ok_pos [OF cap]
  have half: "(2::nat) ^ (LENGTH('w) - 1) \<le> 2 ^ LENGTH('w)"
    by (rule power_increasing) simp_all
  have "int (unat LEN) < int (2 ^ (LENGTH('w) - 1))"
    using cap_ok_bound [OF cap] by (simp only: uint_nat) simp
  then have small: "unat LEN < 2 ^ (LENGTH('w) - 1)"
    by (simp only: of_nat_less_iff)
  obtain n where "LENGTH('w) = Suc n"
    by (cases "LENGTH('w)") simp_all
  then have "(2::nat) ^ LENGTH('w) = 2 * 2 ^ (LENGTH('w) - 1)"
    by simp
  with cn small have "unat (counter b) + unat LEN < 2 ^ LENGTH('w)"
    by linarith
  then have s1: "unat (counter b + LEN) = unat (counter b) + unat LEN"
    by (simp only: unat_add_lem)
  with pos have "0 < unat (counter b + LEN)"
    by simp
  then have "counter b + LEN \<noteq> 0"
    by (simp add: unat_gt_0)
  then have "unat (counter b + LEN - 1) = unat (counter b + LEN) - 1"
    by (rule unat_minus_one)
  with s1 show cnt: "unat (counter (prev LEN b)) = (unat (counter b) + unat LEN - 1) mod unat LEN"
    by (simp add: prev_def unat_mod_distrib)
  with pos have "unat (counter (prev LEN b)) < unat LEN"
    by simp
  with cap len t show "invar LEN (prev LEN b)"
    by (simp add: invar_unsigned word_less_nat_alt) (simp add: prev_def)
qed

lemma prev_next_cb:
  fixes LEN :: "'w::len word"
  assumes cap: "cap_ok LEN" and inv: "invar LEN b"
  shows "prev LEN (next_cb LEN b) = b"
proof -
  from cap inv have "counter b < LEN"
    by (simp add: invar_unsigned)
  then have cn: "unat (counter b) < unat LEN"
    by (simp add: word_less_nat_alt)
  have "unat (counter (prev LEN (next_cb LEN b)))
      = (Suc (unat (counter b)) mod unat LEN + unat LEN - 1) mod unat LEN"
    by (simp only: prev_nat(2) [OF cap next_cb_nat(1) [OF cap inv]] next_cb_nat(2) [OF cap inv])
  also have "\<dots> = unat (counter b)"
  proof (cases "Suc (unat (counter b)) = unat LEN")
    case True
    with cn show ?thesis
      by simp
  next
    case False
    with cn have "Suc (unat (counter b)) mod unat LEN = Suc (unat (counter b))"
      by simp
    with cn show ?thesis
      by simp
  qed
  finally have "counter (prev LEN (next_cb LEN b)) = counter b"
    by (simp only: word_unat_eq_iff)
  then show ?thesis
    by (simp add: prev_def next_cb_def)
qed

lemma next_cb_prev:
  fixes LEN :: "'w::len word"
  assumes cap: "cap_ok LEN" and inv: "invar LEN b"
  shows "next_cb LEN (prev LEN b) = b"
proof -
  from cap inv have "counter b < LEN"
    by (simp add: invar_unsigned)
  then have cn: "unat (counter b) < unat LEN"
    by (simp add: word_less_nat_alt)
  have "unat (counter (next_cb LEN (prev LEN b)))
      = Suc ((unat (counter b) + unat LEN - 1) mod unat LEN) mod unat LEN"
    by (simp only: next_cb_nat(2) [OF cap prev_nat(1) [OF cap inv]] prev_nat(2) [OF cap inv])
  also have "\<dots> = unat (counter b)"
  proof (cases "unat (counter b) = 0")
    case True
    with cn show ?thesis
      by simp
  next
    case False
    then have "unat (counter b) + unat LEN - 1 = (unat (counter b) - 1) + unat LEN"
      by simp
    then have "(unat (counter b) + unat LEN - 1) mod unat LEN = (unat (counter b) - 1) mod unat LEN"
      by simp
    also from cn have "\<dots> = unat (counter b) - 1"
      by simp
    finally show ?thesis
      using cn False by simp
  qed
  finally have "counter (next_cb LEN (prev LEN b)) = counter b"
    by (simp only: word_unat_eq_iff)
  then show ?thesis
    by (simp add: prev_def next_cb_def)
qed

text \<open>The window of \<open>iterate_window\<close>, counted from the cursor.\<close>

lemma window_from_cursor:
  fixes c L t k :: nat
  assumes "t \<le> L"
  shows "(c mod L + 2 * L - t + k) mod L = (c + L - t + k) mod L"
proof -
  from assms have "c mod L + 2 * L - t + k = c mod L + (2 * L - t + k)"
    by simp
  also have "\<dots> mod L = (c + (2 * L - t + k)) mod L"
    by (rule mod_add_left_eq)
  also from assms have "c + (2 * L - t + k) = (c + L - t + k) + L"
    by simp
  also have "\<dots> mod L = (c + L - t + k) mod L"
    by simp
  finally show ?thesis .
qed

lemma iterate_from_cursor:
  fixes LEN :: "'w::len word"
  assumes cap: "iter_cap_ok LEN" and inv: "invar LEN b"
  shows "iterate LEN b = Some (map
    (\<lambda>k. data b ! ((unat (counter b) + unat LEN - unat (total b) + k) mod unat LEN))
    [0..<unat (total b)])"
proof -
  from iter_cap_ok_cap_ok [OF cap] inv have c: "counter b < LEN" and t: "total b \<le> LEN"
    by (simp_all add: invar_unsigned)
  then have cn: "unat (counter b) mod unat LEN = unat (counter b)" and tn: "unat (total b) \<le> unat LEN"
    by (simp_all add: word_less_nat_alt word_le_nat_alt)
  have "(unat (counter b) + 2 * unat LEN - unat (total b) + k) mod unat LEN
      = (unat (counter b) + unat LEN - unat (total b) + k) mod unat LEN" for k
    using window_from_cursor [OF tn, of "unat (counter b)" k] by (simp only: cn)
  then show ?thesis
    by (simp only: iterate_window [OF cap inv])
qed

text \<open>
  The index \<open>-1\<close> on a buffer of capacity 3: as \<^verbatim>\<open>unsigned int\<close> it is \<open>2 ^ w - 1\<close>, a multiple
  of 3 when the width \<open>w\<close> is even (16, 32, 64).
\<close>

lemma pow4_minus_1_mod_3: "(4 ^ m - 1) mod 3 = (0::nat)"
proof (induction m)
  case 0
  show ?case
    by simp
next
  case (Suc m)
  have "(4::nat) ^ Suc m - 1 = 3 * 4 ^ m + (4 ^ m - 1)"
    by simp
  also have "\<dots> mod 3 = (4 ^ m - 1) mod 3"
    by (rule mod_mult_self4)
  finally show ?case
    using Suc.IH by simp
qed

lemma minus_1_slot:
  assumes "even LENGTH('w::len)"
  shows "unat (- 1 :: 'w word) mod 3 = 0"
proof -
  from assms obtain m where m: "LENGTH('w) = 2 * m"
    by (auto elim: evenE)
  have "unat (- 1 :: 'w word) = 2 ^ LENGTH('w) - 1"
    by (simp add: unsigned_minus_1_eq_mask mask_eq_exp_minus_1)
  also have "\<dots> = 4 ^ m - 1"
    by (simp add: m power_mult)
  finally show ?thesis
    by (simp only: pow4_minus_1_mod_3)
qed

section \<open>The loops over the whole array\<close>

text \<open>One step of a loop \<^verbatim>\<open>for (int i = ...; i < LEN; ++i)\<close> that accesses \<^verbatim>\<open>data[i]\<close>.\<close>

lemma loop_step:
  fixes i LEN :: "'w::len word"
  assumes cap: "cap_ok LEN" and lt: "i < LEN"
  shows "sint i = int (unat i)" and "int_incr i = Some (i + 1)" and "i + 1 \<le> LEN"
    and "unat (i + 1) = Suc (unat i)" and "unat i < unat LEN"
proof -
  from lt have "i \<le> LEN"
    by (rule order_less_imp_le)
  then show "sint i = int (unat i)"
    by (simp only: sint_below_cap [OF cap] uint_nat)
  from cap lt show "int_incr i = Some (i + 1)"
    by (simp add: int_incr_def below_cap_not_INT_MAX [of LEN])
  from lt show "i + 1 \<le> LEN"
    by (rule inc_le)
  from lt show "unat (i + 1) = Suc (unat i)"
    by (rule unat_succ)
  from lt show "unat i < unat LEN"
    by (simp add: word_less_nat_alt)
qed

lemma loop_exit:
  fixes i LEN :: "'w::len word"
  assumes "i \<le> LEN" and "\<not> i < LEN"
  shows "unat i = unat LEN"
  using assms by (simp add: word_less_nat_alt word_le_nat_alt)

lemma minimum_loop_fold:
  fixes LEN :: "'w::len word" and d :: "('a::linorder) list"
  assumes "cap_ok LEN" and "length d = unat LEN" and "i \<le> LEN"
  shows "minimum_loop LEN d i val = Some (fold min (drop (unat i) d) val)"
  using assms
proof (induction LEN d i val rule: minimum_loop.induct)
  case (1 LEN d i val)
  show ?case
  proof (cases "i < LEN")
    case False
    with "1.prems" have "unat i = length d"
      by (simp add: loop_exit)
    with False show ?thesis
      by (subst minimum_loop.simps) simp
  next
    case True
    note step = loop_step [OF "1.prems"(1) True]
    from step(5) "1.prems"(2) have in_range: "unat i < length d"
      by simp
    then have get: "arr_get d (sint i) = Some (d ! unat i)"
      by (simp only: step(1) arr_get_nat)
    have "minimum_loop LEN d (i + 1) (if d ! unat i < val then d ! unat i else val)
        = Some (fold min (drop (unat (i + 1)) d) (if d ! unat i < val then d ! unat i else val))"
      using True get step(2) "1.prems"(1,2) step(3) by (rule "1.IH")
    moreover have "(if d ! unat i < val then d ! unat i else val) = min (d ! unat i) val"
      by (auto simp: min_def)
    moreover from in_range have "drop (unat i) d = d ! unat i # drop (Suc (unat i)) d"
      by (simp add: Cons_nth_drop_Suc)
    ultimately show ?thesis
      using True get step(2,4) by (subst minimum_loop.simps) simp
  qed
qed

lemma maximum_loop_fold:
  fixes LEN :: "'w::len word" and d :: "('a::linorder) list"
  assumes "cap_ok LEN" and "length d = unat LEN" and "i \<le> LEN"
  shows "maximum_loop LEN d i val = Some (fold max (drop (unat i) d) val)"
  using assms
proof (induction LEN d i val rule: maximum_loop.induct)
  case (1 LEN d i val)
  show ?case
  proof (cases "i < LEN")
    case False
    with "1.prems" have "unat i = length d"
      by (simp add: loop_exit)
    with False show ?thesis
      by (subst maximum_loop.simps) simp
  next
    case True
    note step = loop_step [OF "1.prems"(1) True]
    from step(5) "1.prems"(2) have in_range: "unat i < length d"
      by simp
    then have get: "arr_get d (sint i) = Some (d ! unat i)"
      by (simp only: step(1) arr_get_nat)
    have "maximum_loop LEN d (i + 1) (if d ! unat i > val then d ! unat i else val)
        = Some (fold max (drop (unat (i + 1)) d) (if d ! unat i > val then d ! unat i else val))"
      using True get step(2) "1.prems"(1,2) step(3) by (rule "1.IH")
    moreover have "(if d ! unat i > val then d ! unat i else val) = max (d ! unat i) val"
      by (auto simp: max_def)
    moreover from in_range have "drop (unat i) d = d ! unat i # drop (Suc (unat i)) d"
      by (simp add: Cons_nth_drop_Suc)
    ultimately show ?thesis
      using True get step(2,4) by (subst maximum_loop.simps) simp
  qed
qed

lemma whole_array:
  fixes LEN :: "'w::len word"
  assumes "cap_ok LEN" and "length d = unat LEN"
  shows "arr_get d 0 = Some (d ! 0)" and "(1 :: 'w word) \<le> LEN" and "d = d ! 0 # drop (unat (1 :: 'w word)) d"
proof -
  from assms cap_ok_pos [OF assms(1)] have pos: "0 < length d"
    by simp
  then show "arr_get d 0 = Some (d ! 0)"
    by (simp add: arr_get_def)
  from assms(1) have "0 < LEN"
    by (simp add: cap_ok_def)
  then show "(1 :: 'w word) \<le> LEN"
    by (simp add: word_le_nat_alt word_less_nat_alt)
  from pos show "d = d ! 0 # drop (unat (1 :: 'w word)) d"
    by (cases d) simp_all
qed

lemma minimum_all_slots:
  fixes LEN :: "'w::len word" and b :: "('a::linorder, 'w) CircularBuffer"
  assumes "cap_ok LEN" and "length (data b) = unat LEN"
  shows "minimum LEN b = Some (Min (set (data b)))"
proof -
  note whole = whole_array [OF assms]
  have "Min (set (data b)) = Min (set (data b ! 0 # drop (unat (1 :: 'w word)) (data b)))"
    using whole(3) by simp
  also have "\<dots> = fold min (drop (unat (1 :: 'w word)) (data b)) (data b ! 0)"
    by (rule Min.set_eq_fold)
  finally show ?thesis
    by (simp only: minimum_def whole(1) option.case minimum_loop_fold [OF assms whole(2)])
qed

lemma maximum_all_slots:
  fixes LEN :: "'w::len word" and b :: "('a::linorder, 'w) CircularBuffer"
  assumes "cap_ok LEN" and "length (data b) = unat LEN"
  shows "maximum LEN b = Some (Max (set (data b)))"
proof -
  note whole = whole_array [OF assms]
  have "Max (set (data b)) = Max (set (data b ! 0 # drop (unat (1 :: 'w word)) (data b)))"
    using whole(3) by simp
  also have "\<dots> = fold max (drop (unat (1 :: 'w word)) (data b)) (data b ! 0)"
    by (rule Max.set_eq_fold)
  finally show ?thesis
    by (simp only: maximum_def whole(1) option.case maximum_loop_fold [OF assms whole(2)])
qed

lemma fill_loop_replicate:
  fixes LEN :: "'w::len word"
  assumes "cap_ok LEN" and "length d = unat LEN" and "i \<le> LEN"
  shows "fill_loop LEN d i v = Some (take (unat i) d @ replicate (unat LEN - unat i) v)"
  using assms
proof (induction LEN d i v rule: fill_loop.induct)
  case (1 LEN d i v)
  show ?case
  proof (cases "i < LEN")
    case False
    with "1.prems" have "unat i = length d"
      by (simp add: loop_exit)
    with False "1.prems"(2) show ?thesis
      by (subst fill_loop.simps) simp
  next
    case True
    note step = loop_step [OF "1.prems"(1) True]
    from step(5) "1.prems"(2) have in_range: "unat i < length d"
      by simp
    then have set: "arr_set d (sint i) v = Some (d[unat i := v])"
      by (simp only: step(1) arr_set_nat)
    from "1.prems"(2) have len: "length (d[unat i := v]) = unat LEN"
      by simp
    have "fill_loop LEN (d[unat i := v]) (i + 1) v
        = Some (take (unat (i + 1)) (d[unat i := v]) @ replicate (unat LEN - unat (i + 1)) v)"
      using True set step(2) "1.prems"(1) len step(3) by (rule "1.IH")
    moreover from in_range have "take (Suc (unat i)) (d[unat i := v]) = take (unat i) d @ [v]"
      by (simp add: take_Suc_conv_app_nth)
    moreover from step(5) have "replicate (unat LEN - unat i) v = v # replicate (unat LEN - Suc (unat i)) v"
      by (simp add: Suc_diff_Suc flip: replicate_Suc)
    ultimately show ?thesis
      using True set step(2,4) by (subst fill_loop.simps) simp
  qed
qed

lemma CircularBuffer_fill_replicate:
  fixes LEN :: "'w::len word"
  assumes "cap_ok LEN" and "length raw = unat LEN"
  shows "CircularBuffer_fill LEN raw v = Some \<lparr>data = replicate (unat LEN) v, counter = 0, total = 0\<rparr>"
proof -
  have "(0 :: 'w word) \<le> LEN"
    by simp
  with assms have "fill_loop LEN raw 0 v = Some (take (unat (0 :: 'w word)) raw @ replicate (unat LEN - unat (0 :: 'w word)) v)"
    by (rule fill_loop_replicate)
  then show ?thesis
    by (simp add: CircularBuffer_fill_def)
qed

section \<open>Every call keeps the invariant\<close>

lemma arr_set_length: "arr_set xs i v = Some d \<Longrightarrow> length d = length xs"
  by (auto simp: arr_set_def split: if_splits)

lemma invar_data_update:
  assumes "invar LEN b" and "length d = length (data b)"
  shows "invar LEN (b\<lparr>data := d\<rparr>)"
  using assms by (simp add: invar_def)

lemma invar_storage_ok:
  assumes "cap_ok LEN" and "invar LEN b"
  shows "storage_ok LEN b"
  using assms by (simp add: storage_ok_def cap_ok_def invar_def)

lemma current_returns:
  fixes LEN :: "'w::len word"
  assumes cap: "cap_ok LEN" and inv: "invar LEN b"
  shows "current b = Some (data b ! unat (counter b))"
    and "current_assign b v = Some (b\<lparr>data := (data b)[unat (counter b) := v]\<rparr>)"
proof -
  from cap inv have len: "length (data b) = unat LEN" and c: "counter b < LEN"
    by (simp_all add: invar_unsigned)
  note step = loop_step [OF cap c]
  from step(5) len have "unat (counter b) < length (data b)"
    by simp
  then show "current b = Some (data b ! unat (counter b))"
    and "current_assign b v = Some (b\<lparr>data := (data b)[unat (counter b) := v]\<rparr>)"
    by (simp_all only: current_def current_assign_def step(1) arr_get_nat arr_set_nat option.map)
qed

lemma call_invar:
  fixes LEN :: "'w::len word" and b :: "('a::linorder, 'w) CircularBuffer"
  assumes cap: "cap_ok LEN" and inv: "invar LEN b" and ret: "call LEN b c = Some b'"
  shows "invar LEN b' \<and> total b \<le> total b' \<and> (total b = LEN \<longrightarrow> total b' = LEN)"
proof (cases c)
  case (Subscript_assign i v)
  with ret obtain d where "arr_set (data b) (uint (i mod LEN)) v = Some d" and "b' = b\<lparr>data := d\<rparr>"
    by (auto simp: subscript_assign_def)
  with inv show ?thesis
    by (simp add: invar_data_update arr_set_length)
next
  case (Append v)
  with ret have app: "append_cb LEN b v = Some b'"
    by simp
  note post = append_cb_nat [OF cap inv app]
  from cap inv have "unat (total b) \<le> unat LEN"
    by (simp add: invar_unsigned word_le_nat_alt)
  with post(4) have "unat (total b) \<le> unat (total b')"
    and "unat (total b) = unat LEN \<longrightarrow> unat (total b') = unat LEN"
    by simp_all
  with post(1) show ?thesis
    by (simp add: word_le_nat_alt word_unat_eq_iff)
next
  case (Current_assign v)
  with ret current_returns(2) [OF cap inv, of v] have "b' = b\<lparr>data := (data b)[unat (counter b) := v]\<rparr>"
    by simp
  with inv show ?thesis
    by (simp add: invar_data_update)
next
  case Prev
  with ret have "b' = prev LEN b"
    by simp
  with prev_nat(1) [OF cap inv] show ?thesis
    by (simp add: prev_def)
next
  case Next
  with ret have "b' = next_cb LEN b"
    by simp
  with next_cb_nat(1) [OF cap inv] show ?thesis
    by (simp add: next_cb_def)
qed (use inv ret in auto)

lemma calls_invar:
  fixes LEN :: "'w::len word" and b :: "('a::linorder, 'w) CircularBuffer"
  assumes cap: "cap_ok LEN" and inv: "invar LEN b" and ret: "calls LEN b cs = Some b'"
  shows "invar LEN b' \<and> total b \<le> total b' \<and> (total b = LEN \<longrightarrow> total b' = LEN)"
  using inv ret
proof (induction cs arbitrary: b)
  case Nil
  then show ?case
    by simp
next
  case (Cons c cs)
  from Cons.prems(2) obtain b1 where one: "call LEN b c = Some b1" and rest: "calls LEN b1 cs = Some b'"
    by (auto split: option.splits)
  from call_invar [OF cap Cons.prems(1) one] Cons.IH [OF _ rest] show ?case
    by auto
qed

lemma call_returns:
  fixes LEN :: "'w::len word" and b :: "('a::linorder, 'w) CircularBuffer"
  assumes cap: "cap_ok LEN" and inv: "invar LEN b" and it: "c = Iterate \<longrightarrow> iter_cap_ok LEN"
  shows "call LEN b c \<noteq> None"
proof (cases c)
  case (Subscript i)
  then show ?thesis
    by (simp add: subscript_slot [OF invar_storage_ok [OF cap inv]])
next
  case (Subscript_assign i v)
  then show ?thesis
    by (simp add: subscript_assign_slot [OF invar_storage_ok [OF cap inv]])
next
  case (Append v)
  then show ?thesis
    by (simp add: append_cb_invar [OF cap inv])
next
  case Current
  then show ?thesis
    by (simp add: current_returns(1) [OF cap inv])
next
  case (Current_assign v)
  then show ?thesis
    by (simp add: current_returns(2) [OF cap inv])
next
  case Iterate
  with it have "iter_cap_ok LEN"
    by simp
  with Iterate show ?thesis
    by (simp add: iterate_window [OF _ inv])
next
  case Minimum
  from cap inv have "length (data b) = unat LEN"
    by (simp add: invar_unsigned)
  with Minimum show ?thesis
    by (simp add: minimum_all_slots [OF cap])
next
  case Maximum
  from cap inv have "length (data b) = unat LEN"
    by (simp add: invar_unsigned)
  with Maximum show ?thesis
    by (simp add: maximum_all_slots [OF cap])
qed simp_all

lemma calls_return:
  fixes LEN :: "'w::len word" and b :: "('a::linorder, 'w) CircularBuffer"
  assumes cap: "cap_ok LEN" and inv: "invar LEN b" and it: "Iterate \<in> set cs \<longrightarrow> iter_cap_ok LEN"
  shows "calls LEN b cs \<noteq> None"
  using inv it
proof (induction cs arbitrary: b)
  case Nil
  show ?case
    by simp
next
  case (Cons c cs)
  from Cons.prems(2) have "c = Iterate \<longrightarrow> iter_cap_ok LEN"
    by simp
  with call_returns [OF cap Cons.prems(1)] obtain b1 where one: "call LEN b c = Some b1"
    by blast
  from call_invar [OF cap Cons.prems(1) one] have "invar LEN b1"
    by simp
  moreover from Cons.prems(2) have "Iterate \<in> set cs \<longrightarrow> iter_cap_ok LEN"
    by simp
  ultimately have "calls LEN b1 cs \<noteq> None"
    by (rule Cons.IH)
  with one show ?case
    by simp
qed

lemma populate_invar:
  fixes LEN :: "'w::len word"
  assumes cap: "cap_ok LEN" and inv: "invar LEN b"
  shows "case populate LEN b first args of None \<Rightarrow> False | Some b' \<Rightarrow> invar LEN b'"
  using inv
proof (induction args arbitrary: b first)
  case Nil
  from append_cb_invar [OF cap Nil, of first] obtain b' where app: "append_cb LEN b first = Some b'"
    by simp
  with append_cb_nat(1) [OF cap Nil app] show ?case
    by simp
next
  case (Cons arg args)
  from append_cb_invar [OF cap Cons.prems, of first] obtain b' where app: "append_cb LEN b first = Some b'"
    by simp
  from append_cb_nat(1) [OF cap Cons.prems app] have "invar LEN b'" .
  then have "case populate LEN b' arg args of None \<Rightarrow> False | Some b'' \<Rightarrow> invar LEN b''"
    by (rule Cons.IH)
  with app show ?case
    by simp
qed

lemma count_as_int:
  fixes LEN :: "'w::len word"
  assumes "cap_ok LEN" and "invar LEN b"
  shows "sint (count b) = uint (total b)"
proof -
  from assms have "total b \<le> LEN"
    by (simp add: invar_unsigned)
  then show ?thesis
    by (simp only: count_def sint_below_cap [OF assms(1)])
qed

section \<open>Floating-point elements\<close>

lemma less_fp_simps:
  "Val x < Val y \<longleftrightarrow> x < y" "\<not> NaN < a" "\<not> a < NaN"
  by (simp_all add: less_fp_def split: fp.splits)

lemma fp_eq_self: "fp_eq x x \<longleftrightarrow> x \<noteq> NaN"
  by (simp add: fp_eq_def split: fp.splits)

lemma arr_get_map: "arr_get (map f xs) i = map_option f (arr_get xs i)"
  by (auto simp: arr_get_def nat_less_iff)

text \<open>On numbers the two loops run as they do on the numbers' own type.\<close>

lemma minimum_loop_Val:
  fixes d :: "('a::ord) list"
  shows "minimum_loop LEN (map Val d) i (Val val) = map_option Val (minimum_loop LEN d i val)"
proof (induction LEN d i val rule: minimum_loop.induct)
  case (1 LEN d i val)
  show ?case
  proof (cases "i < LEN")
    case False
    then show ?thesis
      unfolding minimum_loop.simps [of LEN "map Val d" i "Val val"] minimum_loop.simps [of LEN d i val]
      by simp
  next
    case lt: True
    show ?thesis
    proof (cases "arr_get d (sint i)")
      case None
      with lt show ?thesis
        unfolding minimum_loop.simps [of LEN "map Val d" i "Val val"] minimum_loop.simps [of LEN d i val]
        by (simp add: arr_get_map)
    next
      case (Some x)
      show ?thesis
      proof (cases "int_incr i")
        case None
        with lt Some show ?thesis
          unfolding minimum_loop.simps [of LEN "map Val d" i "Val val"] minimum_loop.simps [of LEN d i val]
          by (simp add: arr_get_map)
      next
        case incr: (Some i')
        have "minimum_loop LEN (map Val d) i' (Val (if x < val then x else val))
            = map_option Val (minimum_loop LEN d i' (if x < val then x else val))"
          using lt Some incr by (rule "1.IH")
        with lt Some incr show ?thesis
          unfolding minimum_loop.simps [of LEN "map Val d" i "Val val"] minimum_loop.simps [of LEN d i val]
          by (simp add: arr_get_map less_fp_simps if_distrib [of Val])
      qed
    qed
  qed
qed

lemma maximum_loop_Val:
  fixes d :: "('a::ord) list"
  shows "maximum_loop LEN (map Val d) i (Val val) = map_option Val (maximum_loop LEN d i val)"
proof (induction LEN d i val rule: maximum_loop.induct)
  case (1 LEN d i val)
  show ?case
  proof (cases "i < LEN")
    case False
    then show ?thesis
      unfolding maximum_loop.simps [of LEN "map Val d" i "Val val"] maximum_loop.simps [of LEN d i val]
      by simp
  next
    case lt: True
    show ?thesis
    proof (cases "arr_get d (sint i)")
      case None
      with lt show ?thesis
        unfolding maximum_loop.simps [of LEN "map Val d" i "Val val"] maximum_loop.simps [of LEN d i val]
        by (simp add: arr_get_map)
    next
      case (Some x)
      show ?thesis
      proof (cases "int_incr i")
        case None
        with lt Some show ?thesis
          unfolding maximum_loop.simps [of LEN "map Val d" i "Val val"] maximum_loop.simps [of LEN d i val]
          by (simp add: arr_get_map)
      next
        case incr: (Some i')
        have "maximum_loop LEN (map Val d) i' (Val (if x > val then x else val))
            = map_option Val (maximum_loop LEN d i' (if x > val then x else val))"
          using lt Some incr by (rule "1.IH")
        with lt Some incr show ?thesis
          unfolding maximum_loop.simps [of LEN "map Val d" i "Val val"] maximum_loop.simps [of LEN d i val]
          by (simp add: arr_get_map less_fp_simps if_distrib [of Val])
      qed
    qed
  qed
qed

lemma minimum_maximum_no_NaN:
  fixes LEN :: "'w::len word" and xs :: "('c::linorder) list" and bf :: "('c fp, 'w) CircularBuffer"
  assumes cap: "cap_ok LEN" and len: "length xs = unat LEN" and d: "data bf = map Val xs"
  shows "minimum LEN bf = Some (Val (Min (set xs)))" and "maximum LEN bf = Some (Val (Max (set xs)))"
proof -
  let ?b = "\<lparr>data = xs, counter = 0 :: 'w word, total = 0 :: 'w word\<rparr>"
  have len': "length (data ?b) = unat LEN"
    using len by simp
  note first = whole_array(1) [OF cap len]
  from minimum_all_slots [OF cap len'] have "minimum_loop LEN xs 1 (xs ! 0) = Some (Min (set xs))"
    by (simp add: minimum_def first)
  then show "minimum LEN bf = Some (Val (Min (set xs)))"
    by (simp add: minimum_def d arr_get_map first minimum_loop_Val)
  from maximum_all_slots [OF cap len'] have "maximum_loop LEN xs 1 (xs ! 0) = Some (Max (set xs))"
    by (simp add: maximum_def first)
  then show "maximum LEN bf = Some (Val (Max (set xs)))"
    by (simp add: maximum_def d arr_get_map first maximum_loop_Val)
qed

text \<open>On an array whose slots all hold \<open>v\<close> the two loops return \<open>v\<close>, whatever \<^verbatim>\<open><\<close> is.\<close>

lemma minimum_loop_const:
  fixes LEN :: "'w::len word" and d :: "('a::ord) list"
  assumes "cap_ok LEN" and "length d = unat LEN" and "i \<le> LEN" and "\<forall>k < length d. d ! k = v"
  shows "minimum_loop LEN d i v = Some v"
  using assms
proof (induction LEN d i v rule: minimum_loop.induct)
  case (1 LEN d i v)
  show ?case
  proof (cases "i < LEN")
    case False
    then show ?thesis
      by (subst minimum_loop.simps) simp
  next
    case True
    note step = loop_step [OF "1.prems"(1) True]
    from step(5) "1.prems"(2) have in_range: "unat i < length d"
      by simp
    with "1.prems"(4) have v: "d ! unat i = v"
      by simp
    from in_range have get: "arr_get d (sint i) = Some v"
      by (simp only: step(1) arr_get_nat v)
    from "1.IH" [OF True get step(2) "1.prems"(1,2) step(3)] "1.prems"(4)
    have "minimum_loop LEN d (i + 1) v = Some v"
      by simp
    with True get step(2) show ?thesis
      by (subst minimum_loop.simps) simp
  qed
qed

lemma maximum_loop_const:
  fixes LEN :: "'w::len word" and d :: "('a::ord) list"
  assumes "cap_ok LEN" and "length d = unat LEN" and "i \<le> LEN" and "\<forall>k < length d. d ! k = v"
  shows "maximum_loop LEN d i v = Some v"
  using assms
proof (induction LEN d i v rule: maximum_loop.induct)
  case (1 LEN d i v)
  show ?case
  proof (cases "i < LEN")
    case False
    then show ?thesis
      by (subst maximum_loop.simps) simp
  next
    case True
    note step = loop_step [OF "1.prems"(1) True]
    from step(5) "1.prems"(2) have in_range: "unat i < length d"
      by simp
    with "1.prems"(4) have v: "d ! unat i = v"
      by simp
    from in_range have get: "arr_get d (sint i) = Some v"
      by (simp only: step(1) arr_get_nat v)
    from "1.IH" [OF True get step(2) "1.prems"(1,2) step(3)] "1.prems"(4)
    have "maximum_loop LEN d (i + 1) v = Some v"
      by simp
    with True get step(2) show ?thesis
      by (subst maximum_loop.simps) simp
  qed
qed

lemma minimum_maximum_filled:
  fixes LEN :: "'w::len word" and v :: "'a::ord"
  assumes cap: "cap_ok LEN"
  shows "minimum LEN \<lparr>data = replicate (unat LEN) v, counter = c, total = t\<rparr> = Some v"
    and "maximum LEN \<lparr>data = replicate (unat LEN) v, counter = c, total = t\<rparr> = Some v"
proof -
  have len: "length (replicate (unat LEN) v) = unat LEN"
    by simp
  have all: "\<forall>k < length (replicate (unat LEN) v). replicate (unat LEN) v ! k = v"
    by simp
  note whole = whole_array [OF cap len]
  from whole(1) cap_ok_pos [OF cap] have first: "arr_get (replicate (unat LEN) v) 0 = Some v"
    by simp
  show "minimum LEN \<lparr>data = replicate (unat LEN) v, counter = c, total = t\<rparr> = Some v"
    by (simp add: minimum_def first minimum_loop_const [OF cap len whole(2) all])
  show "maximum LEN \<lparr>data = replicate (unat LEN) v, counter = c, total = t\<rparr> = Some v"
    by (simp add: maximum_def first maximum_loop_const [OF cap len whole(2) all])
qed

text \<open>Iterating the state that appends alone have reached.\<close>

lemma iterate_appended:
  fixes LEN :: "'w::len word"
  assumes cap: "iter_cap_ok LEN" and raw: "length raw = unat LEN"
  shows "\<exists>b. appends LEN (CircularBuffer_default raw) vs = Some b \<and> invar LEN b
    \<and> iterate LEN b = Some (if length vs \<le> unat LEN then vs else drop (length vs - unat LEN) vs)"
proof -
  note cap' = iter_cap_ok_cap_ok [OF cap]
  from appends_history [OF cap' raw, of vs] obtain b
    where run: "appends LEN (CircularBuffer_default raw) vs = Some b"
      and inv: "invar LEN b"
      and cnt: "unat (counter b) = length vs mod unat LEN"
      and tot: "unat (total b) = min (length vs) (unat LEN)"
      and slots: "\<forall>j < length vs. length vs \<le> j + unat LEN \<longrightarrow> data b ! (j mod unat LEN) = vs ! j"
    by blast
  let ?N = "length vs" and ?L = "unat LEN" and ?t = "min (length vs) (unat LEN)"
  have "map (\<lambda>k. data b ! ((?N mod ?L + 2 * ?L - ?t + k) mod ?L)) [0..<?t] = drop (?N - ?L) vs"
  proof (rule nth_equalityI)
    show "length (map (\<lambda>k. data b ! ((?N mod ?L + 2 * ?L - ?t + k) mod ?L)) [0..<?t])
        = length (drop (?N - ?L) vs)"
      by simp
  next
    fix k
    assume "k < length (map (\<lambda>k. data b ! ((?N mod ?L + 2 * ?L - ?t + k) mod ?L)) [0..<?t])"
    then have k: "k < ?t"
      by simp
    then have "?N - ?t + k < ?N" and "?N \<le> ?N - ?t + k + ?L"
      by (simp_all add: min_def split: if_splits)
    with slots have "data b ! ((?N - ?t + k) mod ?L) = vs ! (?N - ?t + k)"
      by blast
    moreover have "(?N mod ?L + 2 * ?L - ?t + k) mod ?L = (?N - ?t + k) mod ?L"
      by (rule window_index) simp_all
    moreover have "?N - ?t = ?N - ?L"
      by simp
    ultimately show "map (\<lambda>k. data b ! ((?N mod ?L + 2 * ?L - ?t + k) mod ?L)) [0..<?t] ! k
        = drop (?N - ?L) vs ! k"
      using k by simp
  qed
  with iterate_window [OF cap inv] cnt tot
  have "iterate LEN b = Some (if ?N \<le> ?L then vs else drop (?N - ?L) vs)"
    by simp
  with run inv show ?thesis
    by blast
qed

section \<open>The properties of the specification\<close>

text \<open>
  C7, as the code has it. Indexed read access has period \<^verbatim>\<open>LEN\<close> at every index \<open>i\<close> whose
  unsigned value does not wrap when \<^verbatim>\<open>LEN\<close> is added, that is, when \<open>i\<close> and \<open>i + LEN\<close> are both
  negative or both non-negative as \<^verbatim>\<open>int\<close>; and at every index when \<^verbatim>\<open>LEN\<close> divides
  \<open>2 ^ LENGTH('w)\<close>: then \<open>subscript LEN b (i + LEN) = subscript LEN b i\<close>.
\<close>

theorem subscript_periodic:
  fixes i LEN :: "'w::len word"
  assumes "storage_ok LEN b"
    and "unat i + unat LEN < 2 ^ LENGTH('w) \<or> unat LEN dvd 2 ^ LENGTH('w)"
  shows "subscript LEN b (i + LEN) = subscript LEN b i"
  using assms by (simp add: subscript_slot slot_periodic)

theorem subscript_periodic_witness:
  "subscript (3 :: 32 word) \<lparr>data = [10, 20, 30 :: int], counter = 0, total = 3\<rparr> (5 + 3) = Some 30
   \<and> subscript (3 :: 32 word) \<lparr>data = [10, 20, 30 :: int], counter = 0, total = 3\<rparr> 5 = Some 30"
proof -
  have ok: "storage_ok (3 :: 32 word) \<lparr>data = [10, 20, 30 :: int], counter = 0, total = 3\<rparr>"
    by (simp add: storage_ok_def)
  have "unat (5 :: 32 word) + unat (3 :: 32 word) < 2 ^ LENGTH(32) \<or> unat (3 :: 32 word) dvd 2 ^ LENGTH(32)"
    by simp
  with ok have "subscript (3 :: 32 word) \<lparr>data = [10, 20, 30 :: int], counter = 0, total = 3\<rparr> (5 + 3)
      = subscript (3 :: 32 word) \<lparr>data = [10, 20, 30 :: int], counter = 0, total = 3\<rparr> 5"
    by (rule subscript_periodic)
  moreover have "subscript (3 :: 32 word) \<lparr>data = [10, 20, 30 :: int], counter = 0, total = 3\<rparr> 5 = Some 30"
    by (simp add: subscript_def arr_get_def)
  ultimately show ?thesis
    by simp
qed

text \<open>
  C7 as stated fails at \<open>i = -1\<close> on a buffer of capacity 3 that holds 10, 20, 30, with a
  32-bit \<^verbatim>\<open>int\<close>: \<^verbatim>\<open>-1 % LEN\<close> is \<^verbatim>\<open>4294967295u % 3u = 0\<close>, so index \<open>-1\<close> reads slot 0, and
  index \<open>-1 + 3 = 2\<close> reads slot 2.
\<close>

theorem subscript_periodic_counterexample:
  "CircularBuffer_args (3 :: 32 word) [0, 0, 0] 10 [20, 30]
     = Some \<lparr>data = [10, 20, 30 :: int], counter = 0, total = 3\<rparr>
   \<and> subscript (3 :: 32 word) \<lparr>data = [10, 20, 30 :: int], counter = 0, total = 3\<rparr> (- 1) = Some 10
   \<and> subscript (3 :: 32 word) \<lparr>data = [10, 20, 30 :: int], counter = 0, total = 3\<rparr> (- 1 + 3) = Some 30"
  by (simp add: CircularBuffer_args_def CircularBuffer_default_def append_cb_def arr_set_def
      int_incr_def INT_MAX_def subscript_def arr_get_def)

text \<open>
  C4. After \<open>N\<close> appends into a freshly default-constructed buffer of capacity \<^verbatim>\<open>LEN\<close>, for
  every \<open>N \<ge> 0\<close> and whatever the uninitialised array held, the calls return and \<^verbatim>\<open>count()\<close>
  is \<open>min N LEN\<close>.
\<close>

theorem count_after_appends:
  fixes LEN :: "'w::len word"
  assumes "cap_ok LEN" and "length raw = unat LEN"
  shows "map_option (\<lambda>b. sint (count b)) (appends LEN (CircularBuffer_default raw) vs)
    = Some (int (min (length vs) (unat LEN)))"
proof -
  from appends_history [OF assms, of vs] obtain b
    where run: "appends LEN (CircularBuffer_default raw) vs = Some b"
      and inv: "invar LEN b"
      and tot: "unat (total b) = min (length vs) (unat LEN)"
    by blast
  from assms(1) inv have "total b \<le> LEN"
    by (simp add: invar_unsigned)
  then have "sint (total b) = uint (total b)"
    by (rule sint_below_cap [OF assms(1)])
  also have "\<dots> = int (unat (total b))"
    by (rule uint_nat)
  finally show ?thesis
    using run tot by (simp add: count_def)
qed

theorem count_after_appends_witness:
  "map_option (\<lambda>b. sint (count b))
     (appends (3 :: 32 word) (CircularBuffer_default [7, 7, 7 :: int]) [10, 20, 30, 40]) = Some 3
   \<and> map_option (\<lambda>b. sint (count b))
     (appends (3 :: 32 word) (CircularBuffer_default [7, 7, 7 :: int]) [10, 20]) = Some 2"
proof -
  have cap: "cap_ok (3 :: 32 word)"
    by (simp add: cap_ok_def INT_MAX_def)
  have len: "length [7, 7, 7 :: int] = unat (3 :: 32 word)"
    by simp
  from count_after_appends [OF cap len, of "[10, 20, 30, 40]"]
    count_after_appends [OF cap len, of "[10, 20]"]
  show ?thesis
    by simp
qed

text \<open>
  C1, as the code has it. For every capacity \<^verbatim>\<open>LEN\<close> with \<^verbatim>\<open>3 * LEN - 1 <= INT_MAX\<close> and every
  sequence \<open>vs\<close> of \<open>N\<close> values appended to a freshly default-constructed buffer, the appends
  and the iteration return, and the iteration yields the last \<open>min N LEN\<close> appended values,
  oldest first: \<open>vs\<close> when \<open>N \<le> LEN\<close>, and \<open>vs\<close> without its first \<open>N - LEN\<close> values otherwise.
\<close>

theorem iterate_after_appends:
  fixes LEN :: "'w::len word"
  assumes cap: "iter_cap_ok LEN" and raw: "length raw = unat LEN"
  shows "Option.bind (appends LEN (CircularBuffer_default raw) vs) (iterate LEN)
    = Some (if length vs \<le> unat LEN then vs else drop (length vs - unat LEN) vs)"
proof -
  note cap' = iter_cap_ok_cap_ok [OF cap]
  from appends_history [OF cap' raw, of vs] obtain b
    where run: "appends LEN (CircularBuffer_default raw) vs = Some b"
      and inv: "invar LEN b"
      and cnt: "unat (counter b) = length vs mod unat LEN"
      and tot: "unat (total b) = min (length vs) (unat LEN)"
      and slots: "\<forall>j < length vs. length vs \<le> j + unat LEN \<longrightarrow> data b ! (j mod unat LEN) = vs ! j"
    by blast
  let ?N = "length vs" and ?L = "unat LEN" and ?t = "min (length vs) (unat LEN)"
  have "map (\<lambda>k. data b ! ((?N mod ?L + 2 * ?L - ?t + k) mod ?L)) [0..<?t] = drop (?N - ?L) vs"
  proof (rule nth_equalityI)
    show "length (map (\<lambda>k. data b ! ((?N mod ?L + 2 * ?L - ?t + k) mod ?L)) [0..<?t])
        = length (drop (?N - ?L) vs)"
      by simp
  next
    fix k
    assume "k < length (map (\<lambda>k. data b ! ((?N mod ?L + 2 * ?L - ?t + k) mod ?L)) [0..<?t])"
    then have k: "k < ?t"
      by simp
    have "(?N mod ?L + 2 * ?L - ?t + k) mod ?L = (?N - ?t + k) mod ?L"
      by (rule window_index) simp_all
    moreover from k have "?N - ?t + k < ?N" and "?N \<le> ?N - ?t + k + ?L"
      by (simp_all add: min_def split: if_splits)
    with slots have "data b ! ((?N - ?t + k) mod ?L) = vs ! (?N - ?t + k)"
      by blast
    moreover have "?N - ?t = ?N - ?L"
      by simp
    ultimately show "map (\<lambda>k. data b ! ((?N mod ?L + 2 * ?L - ?t + k) mod ?L)) [0..<?t] ! k
        = drop (?N - ?L) vs ! k"
      using k by simp
  qed
  with iterate_window [OF cap inv] run cnt tot show ?thesis
    by simp
qed

theorem iterate_after_appends_witness:
  "Option.bind (appends (3 :: 32 word) (CircularBuffer_default [7, 7, 7 :: int]) [10, 20, 30, 40])
       (iterate (3 :: 32 word)) = Some [20, 30, 40]
   \<and> Option.bind (appends (3 :: 32 word) (CircularBuffer_default [7, 7, 7 :: int]) [10, 20])
       (iterate (3 :: 32 word)) = Some [10, 20]"
proof -
  have cap: "iter_cap_ok (3 :: 32 word)"
    by (simp add: iter_cap_ok_def)
  have len: "length [7, 7, 7 :: int] = unat (3 :: 32 word)"
    by simp
  from iterate_after_appends [OF cap len, of "[10, 20, 30, 40]"]
    iterate_after_appends [OF cap len, of "[10, 20]"]
  show ?thesis
    by simp
qed

text \<open>
  C1 as stated, for every capacity, fails at the capacity 2147483647 with a 32-bit \<^verbatim>\<open>int\<close>,
  which holds that capacity. After the appends 1, 2, 3 the cursor is 3. \<^verbatim>\<open>end()\<close> is at
  \<^verbatim>\<open>3 + LEN + LEN = 4294967297\<close>, which wraps to 1, and \<^verbatim>\<open>begin()\<close> is 3 before it, at
  \<^verbatim>\<open>4294967294u\<close>, the \<^verbatim>\<open>int\<close> \<open>-2\<close>. The loop runs through the offsets
  \<open>-2\<close>, \<open>-1\<close>, \<open>0\<close> and reads the slots \<^verbatim>\<open>4294967294u % LEN = 0\<close>, \<^verbatim>\<open>4294967295u % LEN = 1\<close> and
  \<^verbatim>\<open>0u % LEN = 0\<close>: the values 1, 2, 1.
\<close>

theorem iterate_after_appends_counterexample:
  "cap_ok (2147483647 :: 32 word)
   \<and> appends (2147483647 :: 32 word) (CircularBuffer_default (replicate 2147483647 (0 :: int))) [1, 2, 3]
     = Some \<lparr>data = (replicate 2147483647 0)[0 := 1, 1 := 2, 2 := 3], counter = 3, total = 3\<rparr>
   \<and> begin_cb (2147483647 :: 32 word)
       \<lparr>data = (replicate 2147483647 (0 :: int))[0 := 1, 1 := 2, 2 := 3], counter = 3, total = 3\<rparr>
     = \<lparr>ptr = (replicate 2147483647 0)[0 := 1, 1 := 2, 2 := 3], offset = - 2\<rparr>
   \<and> end_cb (2147483647 :: 32 word)
       \<lparr>data = (replicate 2147483647 (0 :: int))[0 := 1, 1 := 2, 2 := 3], counter = 3, total = 3\<rparr>
     = \<lparr>ptr = (replicate 2147483647 0)[0 := 1, 1 := 2, 2 := 3], offset = 1\<rparr>
   \<and> iterate (2147483647 :: 32 word)
       \<lparr>data = (replicate 2147483647 (0 :: int))[0 := 1, 1 := 2, 2 := 3], counter = 3, total = 3\<rparr>
     = Some [1, 2, 1]"
  by (simp add: cap_ok_def INT_MAX_def CircularBuffer_default_def append_cb_def arr_set_def int_incr_def
      begin_cb_def end_cb_def iterate_def range_for.simps iterator_neq_def iterator_deref_def
      iterator_incr_def arr_get_def)

text \<open>
  The same happens with a 16-bit \<^verbatim>\<open>int\<close> at the capacity 32767: \<^verbatim>\<open>end()\<close> is at
  \<^verbatim>\<open>3 + LEN + LEN = 65537\<close>, which wraps to 1.
\<close>

lemma iterate_after_appends_int16:
  "cap_ok (32767 :: 16 word)
   \<and> appends (32767 :: 16 word) (CircularBuffer_default (replicate 32767 (0 :: int))) [1, 2, 3]
     = Some \<lparr>data = (replicate 32767 0)[0 := 1, 1 := 2, 2 := 3], counter = 3, total = 3\<rparr>
   \<and> iterate (32767 :: 16 word)
       \<lparr>data = (replicate 32767 (0 :: int))[0 := 1, 1 := 2, 2 := 3], counter = 3, total = 3\<rparr>
     = Some [1, 2, 1]"
  by (simp add: cap_ok_def INT_MAX_def CircularBuffer_default_def append_cb_def arr_set_def int_incr_def
      begin_cb_def end_cb_def iterate_def range_for.simps iterator_neq_def iterator_deref_def
      iterator_incr_def arr_get_def)

text \<open>
  C8. In every state that satisfies the invariant, \<^verbatim>\<open>next()\<close> then \<^verbatim>\<open>prev()\<close>, and \<^verbatim>\<open>prev()\<close>
  then \<^verbatim>\<open>next()\<close>, give the state back: \<^verbatim>\<open>index()\<close>, the array and \<^verbatim>\<open>count()\<close> are as before.
\<close>

theorem cursor_round_trip:
  fixes LEN :: "'w::len word"
  assumes "cap_ok LEN" and "invar LEN b"
  shows "index (prev LEN (next_cb LEN b)) = index b
    \<and> data (prev LEN (next_cb LEN b)) = data b
    \<and> count (prev LEN (next_cb LEN b)) = count b
    \<and> index (next_cb LEN (prev LEN b)) = index b
    \<and> data (next_cb LEN (prev LEN b)) = data b
    \<and> count (next_cb LEN (prev LEN b)) = count b"
  using assms by (simp add: prev_next_cb next_cb_prev)

theorem cursor_round_trip_witness:
  "index (prev (3 :: 32 word) (next_cb 3 \<lparr>data = [10, 20, 30 :: int], counter = 2, total = 3\<rparr>)) = 2
   \<and> index (next_cb (3 :: 32 word) \<lparr>data = [10, 20, 30 :: int], counter = 2, total = 3\<rparr>) = 0"
proof -
  have cap: "cap_ok (3 :: 32 word)"
    by (simp add: cap_ok_def INT_MAX_def)
  have inv: "invar (3 :: 32 word) \<lparr>data = [10, 20, 30 :: int], counter = 2, total = 3\<rparr>"
    by (simp add: invar_def)
  have "index (prev (3 :: 32 word) (next_cb 3 \<lparr>data = [10, 20, 30 :: int], counter = 2, total = 3\<rparr>))
      = index \<lparr>data = [10, 20, 30 :: int], counter = 2 :: 32 word, total = 3\<rparr>"
    using cursor_round_trip [OF cap inv] by (rule conjunct1)
  also have "\<dots> = 2"
    by (simp add: index_def)
  finally have "index (prev (3 :: 32 word) (next_cb 3 \<lparr>data = [10, 20, 30 :: int], counter = 2, total = 3\<rparr>)) = 2" .
  moreover have "index (next_cb (3 :: 32 word) \<lparr>data = [10, 20, 30 :: int], counter = 2, total = 3\<rparr>) = 0"
    by (simp add: index_def next_cb_def)
  ultimately show ?thesis
    by (rule conjI)
qed

text \<open>
  C3, as the code has it. With \<^verbatim>\<open>LEN > 0\<close> and the array of \<^verbatim>\<open>LEN\<close> elements, \<^verbatim>\<open>operator[]\<close> is
  total for every \<^verbatim>\<open>int\<close> index \<open>i\<close>, negative ones too: the read returns, and the write
  stores to, the slot \<open>unat i mod LEN\<close>, which is inside the array. \<open>unat i\<close> is the index
  converted to \<^verbatim>\<open>unsigned int\<close>, \<open>i + 2 ^ w\<close> for a negative \<open>i\<close>. So on a buffer of capacity 3,
  with an \<^verbatim>\<open>int\<close> of even width, index \<open>-1\<close> reads what index \<open>0\<close> reads.
\<close>

theorem subscript_total:
  fixes LEN :: "'w::len word"
  assumes "storage_ok LEN b"
  shows "subscript LEN b i = Some (data b ! (unat i mod unat LEN))
    \<and> subscript_assign LEN b i v = Some (b\<lparr>data := (data b)[unat i mod unat LEN := v]\<rparr>)
    \<and> unat i mod unat LEN < length (data b)
    \<and> (even LENGTH('w) \<and> LEN = 3 \<longrightarrow> subscript LEN b (- 1) = subscript LEN b 0)"
proof (intro conjI impI)
  show "subscript LEN b i = Some (data b ! (unat i mod unat LEN))"
    using assms by (rule subscript_slot)
  show "subscript_assign LEN b i v = Some (b\<lparr>data := (data b)[unat i mod unat LEN := v]\<rparr>)"
    using assms by (rule subscript_assign_slot)
  from assms show "unat i mod unat LEN < length (data b)"
    by (simp add: storage_ok_def uint_mod_less(2))
next
  assume three: "even LENGTH('w) \<and> LEN = 3"
  have "3 < (2::nat) ^ LENGTH('w)"
  proof -
    from three obtain m where m: "LENGTH('w) = 2 * m"
      by (auto elim: evenE)
    with len_gt_0 [where 'a = 'w] have "0 < m"
      by simp
    then obtain n where "m = Suc n"
      by (cases m) simp_all
    with m have "(2::nat) ^ LENGTH('w) = 4 * 4 ^ n"
      by (simp add: power_mult)
    moreover have "1 \<le> (4::nat) ^ n"
      by simp
    ultimately show ?thesis
      by linarith
  qed
  then have "unat (3 :: 'w word) = 3"
    by (simp only: unat_numeral mod_less)
  with three minus_1_slot [where 'w = 'w] have "unat (- 1 :: 'w word) mod unat LEN = 0"
    by simp
  then show "subscript LEN b (- 1) = subscript LEN b 0"
    by (simp add: subscript_slot [OF assms])
qed

theorem subscript_total_witness:
  "subscript (3 :: 32 word) \<lparr>data = [7, 8, 9 :: int], counter = 1, total = 1\<rparr> (- 2) = Some 9
   \<and> subscript_assign (3 :: 32 word) \<lparr>data = [7, 8, 9 :: int], counter = 1, total = 1\<rparr> (- 2) 5
     = Some \<lparr>data = [7, 8, 5], counter = 1, total = 1\<rparr>
   \<and> subscript (3 :: 32 word) \<lparr>data = [7, 8, 9 :: int], counter = 1, total = 1\<rparr> (- 1) = Some 7
   \<and> subscript (3 :: 32 word) \<lparr>data = [7, 8, 9 :: int], counter = 1, total = 1\<rparr> 0 = Some 7"
proof -
  have ok: "storage_ok (3 :: 32 word) \<lparr>data = [7, 8, 9 :: int], counter = 1, total = 1\<rparr>"
    by (simp add: storage_ok_def)
  have "even LENGTH(32) \<and> (3 :: 32 word) = 3"
    by simp
  with subscript_total [OF ok, of "- 2" 5] subscript_total [OF ok, of 0 5] show ?thesis
    by simp
qed

text \<open>
  C3 as stated fails on its own example: on a buffer of capacity 3 that holds 7, 8, 9, with a
  32-bit \<^verbatim>\<open>int\<close>, index \<open>-1\<close> reads slot \<^verbatim>\<open>4294967295u % 3u = 0\<close>, the value 7, and index 2 reads
  slot 2, the value 9. A write to index \<open>-1\<close> changes slot 0.
\<close>

theorem subscript_total_counterexample:
  "subscript (3 :: 32 word) \<lparr>data = [7, 8, 9 :: int], counter = 0, total = 3\<rparr> (- 1) = Some 7
   \<and> subscript (3 :: 32 word) \<lparr>data = [7, 8, 9 :: int], counter = 0, total = 3\<rparr> 2 = Some 9
   \<and> subscript_assign (3 :: 32 word) \<lparr>data = [7, 8, 9 :: int], counter = 0, total = 3\<rparr> (- 1) 5
     = Some \<lparr>data = [5, 8, 9], counter = 0, total = 3\<rparr>"
  by (simp add: subscript_def subscript_assign_def arr_get_def arr_set_def)

text \<open>
  C9. With \<^verbatim>\<open>LEN > 0\<close> and the array of \<^verbatim>\<open>LEN\<close> elements, an indexed write returns for every
  index \<open>i\<close> and changes the slot \<open>unat i mod LEN\<close> alone: \<^verbatim>\<open>index()\<close> and \<^verbatim>\<open>count()\<close> are as
  before, the slot holds the value written, and every other slot keeps its value.
\<close>

theorem subscript_assign_frame:
  fixes LEN :: "'w::len word"
  assumes "storage_ok LEN b"
  shows "case subscript_assign LEN b i v of
      None \<Rightarrow> False
    | Some b' \<Rightarrow>
        index b' = index b \<and> count b' = count b
        \<and> length (data b') = length (data b)
        \<and> data b' ! (unat i mod unat LEN) = v
        \<and> (\<forall>j < length (data b). j \<noteq> unat i mod unat LEN \<longrightarrow> data b' ! j = data b ! j)"
proof -
  from assms have "unat i mod unat LEN < length (data b)"
    by (simp add: storage_ok_def uint_mod_less(2))
  then show ?thesis
    by (simp add: subscript_assign_slot [OF assms] index_def count_def)
qed

theorem subscript_assign_frame_witness:
  "subscript_assign (3 :: 32 word) \<lparr>data = [7, 8, 9 :: int], counter = 1, total = 2\<rparr> 7 5
     = Some \<lparr>data = [7, 5, 9], counter = 1, total = 2\<rparr>"
proof -
  have ok: "storage_ok (3 :: 32 word) \<lparr>data = [7, 8, 9 :: int], counter = 1, total = 2\<rparr>"
    by (simp add: storage_ok_def)
  from subscript_assign_frame [OF ok, of 7 5] show ?thesis
    by (simp add: subscript_assign_def arr_set_def split: option.splits)
qed

text \<open>
  C6. For a capacity that an \<^verbatim>\<open>int\<close> holds: each of the three constructors returns a state
  that satisfies the invariant \<^verbatim>\<open>0 <= counter < LEN\<close>, \<^verbatim>\<open>0 <= total <= LEN\<close>; from a state that
  satisfies it, every sequence of calls of public member functions that returns ends in a
  state that satisfies it, with a \<^verbatim>\<open>count()\<close> that is not smaller, and that is \<^verbatim>\<open>LEN\<close> if it
  was \<^verbatim>\<open>LEN\<close> before; and the sequence does return, provided the capacity admits iteration
  (\<^verbatim>\<open>3 * LEN - 1 <= INT_MAX\<close>) if the sequence iterates.
\<close>

theorem invariant_preserved:
  fixes LEN :: "'w::len word" and b :: "('a::linorder, 'w) CircularBuffer"
  assumes cap: "cap_ok LEN" and raw: "length raw = unat LEN"
  shows "invar LEN (CircularBuffer_default raw :: ('a, 'w) CircularBuffer)
    \<and> (case CircularBuffer_fill LEN raw v of None \<Rightarrow> False | Some b0 \<Rightarrow> invar LEN b0)
    \<and> (case CircularBuffer_args LEN raw first args of None \<Rightarrow> False | Some b0 \<Rightarrow> invar LEN b0)
    \<and> (invar LEN b \<longrightarrow>
        (case calls LEN b cs of
           None \<Rightarrow> True
         | Some b' \<Rightarrow>
             invar LEN b' \<and> sint (count b) \<le> sint (count b')
             \<and> (sint (count b) = uint LEN \<longrightarrow> sint (count b') = uint LEN)))
    \<and> (invar LEN b \<and> (Iterate \<in> set cs \<longrightarrow> iter_cap_ok LEN) \<longrightarrow> calls LEN b cs \<noteq> None)"
proof (intro conjI impI)
  show dflt: "invar LEN (CircularBuffer_default raw :: ('a, 'w) CircularBuffer)"
    using cap raw by (rule default_invar)
  have "invar LEN \<lparr>data = replicate (unat LEN) v, counter = 0, total = 0\<rparr>"
    using cap by (simp add: invar_unsigned cap_ok_def)
  then show "case CircularBuffer_fill LEN raw v of None \<Rightarrow> False | Some b0 \<Rightarrow> invar LEN b0"
    by (simp add: CircularBuffer_fill_replicate [OF cap raw])
  show "case CircularBuffer_args LEN raw first args of None \<Rightarrow> False | Some b0 \<Rightarrow> invar LEN b0"
    unfolding CircularBuffer_args_def using cap dflt by (rule populate_invar)
next
  assume inv: "invar LEN b"
  show "case calls LEN b cs of
      None \<Rightarrow> True
    | Some b' \<Rightarrow>
        invar LEN b' \<and> sint (count b) \<le> sint (count b')
        \<and> (sint (count b) = uint LEN \<longrightarrow> sint (count b') = uint LEN)"
  proof (cases "calls LEN b cs")
    case None
    then show ?thesis
      by simp
  next
    case (Some b')
    from calls_invar [OF cap inv Some]
    have inv': "invar LEN b'" and mono: "total b \<le> total b'" and sat: "total b = LEN \<longrightarrow> total b' = LEN"
      by simp_all
    from mono have "uint (total b) \<le> uint (total b')"
      by (simp add: word_le_def)
    moreover from sat have "uint (total b) = uint LEN \<longrightarrow> uint (total b') = uint LEN"
      by (simp only: word_uint_eq_iff)
    ultimately show ?thesis
      using Some inv' by (simp add: count_as_int [OF cap inv] count_as_int [OF cap inv'])
  qed
next
  assume "invar LEN b \<and> (Iterate \<in> set cs \<longrightarrow> iter_cap_ok LEN)"
  then show "calls LEN b cs \<noteq> None"
    using cap by (simp add: calls_return)
qed

theorem invariant_preserved_witness:
  "calls (3 :: 32 word) (CircularBuffer_default [0, 0, 0 :: int])
       [Append 5, Next, Append 6, Subscript_assign (- 1) 9, Append 7, Append 8, Prev, Iterate, Minimum]
     = Some \<lparr>data = [7, 8, 6], counter = 1, total = 3\<rparr>
   \<and> invar (3 :: 32 word) \<lparr>data = [7, 8, 6 :: int], counter = 1, total = 3\<rparr>
   \<and> sint (count (CircularBuffer_default [0, 0, 0 :: int] :: (int, 32) CircularBuffer))
     \<le> sint (count \<lparr>data = [7, 8, 6 :: int], counter = 1 :: 32 word, total = 3\<rparr>)"
proof -
  let ?cs = "[Append 5, Next, Append 6, Subscript_assign (- 1) 9, Append 7, Append 8, Prev, Iterate, Minimum]
    :: (int, 32 word) member_call list"
  have cap: "cap_ok (3 :: 32 word)"
    by (simp add: cap_ok_def INT_MAX_def)
  have len: "length [0, 0, 0 :: int] = unat (3 :: 32 word)"
    by simp
  have run: "calls (3 :: 32 word) (CircularBuffer_default [0, 0, 0 :: int]) ?cs
      = Some \<lparr>data = [7, 8, 6], counter = 1, total = 3\<rparr>"
    by (simp add: CircularBuffer_default_def append_cb_def arr_set_def int_incr_def INT_MAX_def
        next_cb_def prev_def subscript_assign_def
        begin_cb_def end_cb_def iterate_def range_for.simps iterator_neq_def
        iterator_deref_def iterator_incr_def arr_get_def
        minimum_def minimum_loop.simps)
  from invariant_preserved [OF cap len, where b = "CircularBuffer_default [0, 0, 0 :: int]" and cs = ?cs
      and v = 0 and first = 0 and args = "[]"]
  have "invar (3 :: 32 word) (CircularBuffer_default [0, 0, 0 :: int])"
    and "invar (3 :: 32 word) (CircularBuffer_default [0, 0, 0 :: int]) \<longrightarrow>
      (case calls (3 :: 32 word) (CircularBuffer_default [0, 0, 0 :: int]) ?cs of
         None \<Rightarrow> True
       | Some b' \<Rightarrow>
           invar 3 b' \<and> sint (count (CircularBuffer_default [0, 0, 0 :: int] :: (int, 32) CircularBuffer))
             \<le> sint (count b')
           \<and> (sint (count (CircularBuffer_default [0, 0, 0 :: int] :: (int, 32) CircularBuffer)) = uint (3 :: 32 word)
             \<longrightarrow> sint (count b') = uint (3 :: 32 word)))"
    by blast+
  then show ?thesis
    unfolding run by simp
qed

text \<open>
  C2, as the code has it. For a capacity that an \<^verbatim>\<open>int\<close> holds and any state of the cursor and
  the count, \<^verbatim>\<open>minimum()\<close> returns the least and \<^verbatim>\<open>maximum()\<close> the greatest value among all
  \<^verbatim>\<open>LEN\<close> slots of the array, the slots beyond \<^verbatim>\<open>count()\<close> included, when \<^verbatim>\<open><\<close> is a linear order
  on the element type, and on a floating-point buffer when no slot holds a NaN.
\<close>

theorem minimum_maximum_all_slots:
  fixes LEN :: "'w::len word" and b :: "('a::linorder, 'w) CircularBuffer"
    and xs :: "('c::linorder) list" and bf :: "('c fp, 'w) CircularBuffer"
  assumes "cap_ok LEN" and "length (data b) = unat LEN"
  shows "minimum LEN b = Some (Min (set (data b))) \<and> maximum LEN b = Some (Max (set (data b)))
    \<and> (length xs = unat LEN \<and> data bf = map Val xs \<longrightarrow>
        minimum LEN bf = Some (Val (Min (set xs))) \<and> maximum LEN bf = Some (Val (Max (set xs))))"
  using assms by (simp only: minimum_all_slots maximum_all_slots) (simp add: minimum_maximum_no_NaN)

theorem minimum_maximum_all_slots_witness:
  "minimum (3 :: 32 word) \<lparr>data = [5, 1, 9 :: int], counter = 1, total = 1\<rparr> = Some 1
   \<and> maximum (3 :: 32 word) \<lparr>data = [5, 1, 9 :: int], counter = 1, total = 1\<rparr> = Some 9
   \<and> minimum (3 :: 32 word) \<lparr>data = [Val 5, Val 1, Val 9 :: int fp], counter = 1, total = 1\<rparr> = Some (Val 1)
   \<and> maximum (3 :: 32 word) \<lparr>data = [Val 5, Val 1, Val 9 :: int fp], counter = 1, total = 1\<rparr> = Some (Val 9)"
proof -
  have cap: "cap_ok (3 :: 32 word)"
    by (simp add: cap_ok_def INT_MAX_def)
  have len: "length (data \<lparr>data = [5, 1, 9 :: int], counter = 1 :: 32 word, total = 1\<rparr>) = unat (3 :: 32 word)"
    by simp
  have "length [5, 1, 9 :: int] = unat (3 :: 32 word)
      \<and> data \<lparr>data = [Val 5, Val 1, Val 9 :: int fp], counter = 1 :: 32 word, total = 1\<rparr>
        = map Val [5, 1, 9]"
    by simp
  with minimum_maximum_all_slots [OF cap len, of "[5, 1, 9]"
      "\<lparr>data = [Val 5, Val 1, Val 9 :: int fp], counter = 1 :: 32 word, total = 1\<rparr>"]
  show ?thesis
    by simp
qed

text \<open>
  C2 as stated, for every arithmetic element type, fails on a \<^verbatim>\<open>double\<close> buffer of capacity 3
  that holds NaN, 1.0, 2.0: \<^verbatim>\<open>value\<close> starts as the NaN of slot 0, \<^verbatim>\<open>data[i] < value\<close> and
  \<^verbatim>\<open>data[i] > value\<close> are false for every slot, and both functions return the NaN, which is
  neither below 1.0 nor above 2.0.
\<close>

theorem minimum_maximum_all_slots_counterexample:
  "minimum (3 :: 32 word) \<lparr>data = [NaN, Val 1, Val 2 :: int fp], counter = 0, total = 3\<rparr> = Some NaN
   \<and> maximum (3 :: 32 word) \<lparr>data = [NaN, Val 1, Val 2 :: int fp], counter = 0, total = 3\<rparr> = Some NaN
   \<and> \<not> (NaN :: int fp) \<le> Val 1
   \<and> \<not> (Val 2 :: int fp) \<le> NaN
   \<and> (Val 1 :: int fp) \<le> Val 2"
  by (simp add: minimum_def maximum_def minimum_loop.simps maximum_loop.simps arr_get_def
      int_incr_def INT_MAX_def less_fp_def less_eq_fp_def)

text \<open>
  C10, as the code has it. For every element type, whatever its \<^verbatim>\<open><\<close>, a capacity that an
  \<^verbatim>\<open>int\<close> holds and every fill value \<open>v\<close>, the fill constructor returns a buffer whose slots all
  hold \<open>v\<close>, with \<^verbatim>\<open>count() == 0\<close>, on which \<^verbatim>\<open>minimum()\<close> and \<^verbatim>\<open>maximum()\<close> both return \<open>v\<close>
  itself. On a floating-point buffer \<^verbatim>\<open>minimum() == v\<close> and \<^verbatim>\<open>maximum() == v\<close> therefore hold
  exactly when \<open>v\<close> is not a NaN.
\<close>

theorem fill_minimum_maximum:
  fixes LEN :: "'w::len word" and v :: "'a::ord" and x :: "('c::ord) fp"
  assumes "cap_ok LEN" and "length raw = unat LEN"
  shows "CircularBuffer_fill LEN raw v = Some \<lparr>data = replicate (unat LEN) v, counter = 0, total = 0\<rparr>
    \<and> map_option count (CircularBuffer_fill LEN raw v) = Some 0
    \<and> Option.bind (CircularBuffer_fill LEN raw v) (minimum LEN) = Some v
    \<and> Option.bind (CircularBuffer_fill LEN raw v) (maximum LEN) = Some v
    \<and> (length rawf = unat LEN \<longrightarrow>
        map_option (\<lambda>m. fp_eq m x) (Option.bind (CircularBuffer_fill LEN rawf x) (minimum LEN))
          = Some (x \<noteq> NaN)
        \<and> map_option (\<lambda>m. fp_eq m x) (Option.bind (CircularBuffer_fill LEN rawf x) (maximum LEN))
          = Some (x \<noteq> NaN))"
proof (intro conjI impI)
  show "CircularBuffer_fill LEN raw v = Some \<lparr>data = replicate (unat LEN) v, counter = 0, total = 0\<rparr>"
    using assms by (rule CircularBuffer_fill_replicate)
  then show "map_option count (CircularBuffer_fill LEN raw v) = Some 0"
    by (simp add: count_def)
  show "Option.bind (CircularBuffer_fill LEN raw v) (minimum LEN) = Some v"
    by (simp add: CircularBuffer_fill_replicate [OF assms] minimum_maximum_filled(1) [OF assms(1)])
  show "Option.bind (CircularBuffer_fill LEN raw v) (maximum LEN) = Some v"
    by (simp add: CircularBuffer_fill_replicate [OF assms] minimum_maximum_filled(2) [OF assms(1)])
next
  assume rawf: "length rawf = unat LEN"
  show "map_option (\<lambda>m. fp_eq m x) (Option.bind (CircularBuffer_fill LEN rawf x) (minimum LEN))
      = Some (x \<noteq> NaN)"
    by (simp add: CircularBuffer_fill_replicate [OF assms(1) rawf]
        minimum_maximum_filled(1) [OF assms(1)] fp_eq_self)
  show "map_option (\<lambda>m. fp_eq m x) (Option.bind (CircularBuffer_fill LEN rawf x) (maximum LEN))
      = Some (x \<noteq> NaN)"
    by (simp add: CircularBuffer_fill_replicate [OF assms(1) rawf]
        minimum_maximum_filled(2) [OF assms(1)] fp_eq_self)
qed

theorem fill_minimum_maximum_witness:
  "Option.bind (CircularBuffer_fill (3 :: 32 word) [4, 8, 6] (7 :: int)) (minimum 3) = Some 7
   \<and> Option.bind (CircularBuffer_fill (3 :: 32 word) [4, 8, 6] (7 :: int)) (maximum 3) = Some 7
   \<and> map_option count (CircularBuffer_fill (3 :: 32 word) [4, 8, 6] (7 :: int)) = Some 0
   \<and> map_option (\<lambda>m. fp_eq m (Val 7))
       (Option.bind (CircularBuffer_fill (3 :: 32 word) [Val 4, NaN, Val 6] (Val 7 :: int fp)) (minimum 3))
     = Some True"
proof -
  have cap: "cap_ok (3 :: 32 word)"
    by (simp add: cap_ok_def INT_MAX_def)
  have len: "length [4, 8, 6 :: int] = unat (3 :: 32 word)"
    by simp
  have lenf: "length [Val 4, NaN, Val 6 :: int fp] = unat (3 :: 32 word)"
    by simp
  note filled = fill_minimum_maximum [OF cap len, of 7 "[Val 4, NaN, Val 6 :: int fp]" "Val 7"]
  from filled have "Option.bind (CircularBuffer_fill (3 :: 32 word) [4, 8, 6] (7 :: int)) (minimum 3) = Some 7"
    and "Option.bind (CircularBuffer_fill (3 :: 32 word) [4, 8, 6] (7 :: int)) (maximum 3) = Some 7"
    and "map_option count (CircularBuffer_fill (3 :: 32 word) [4, 8, 6] (7 :: int)) = Some 0"
    by blast+
  moreover from filled lenf have "map_option (\<lambda>m. fp_eq m (Val 7))
      (Option.bind (CircularBuffer_fill (3 :: 32 word) [Val 4, NaN, Val 6] (Val 7 :: int fp)) (minimum 3))
    = Some (Val 7 \<noteq> (NaN :: int fp))"
    by blast
  then have "map_option (\<lambda>m. fp_eq m (Val 7))
      (Option.bind (CircularBuffer_fill (3 :: 32 word) [Val 4, NaN, Val 6] (Val 7 :: int fp)) (minimum 3))
    = Some True"
    by simp
  ultimately show ?thesis
    by (intro conjI)
qed

text \<open>
  C10 as stated, for every arithmetic element type and every fill value, fails on a \<^verbatim>\<open>double\<close>
  buffer filled with a NaN: \<^verbatim>\<open>minimum()\<close> and \<^verbatim>\<open>maximum()\<close> return the NaN, and
  \<^verbatim>\<open>NaN == NaN\<close> is false.
\<close>

theorem fill_minimum_maximum_counterexample:
  "CircularBuffer_fill (3 :: 32 word) [Val 1, Val 2, Val 3] (NaN :: int fp)
     = Some \<lparr>data = [NaN, NaN, NaN], counter = 0, total = 0\<rparr>
   \<and> minimum (3 :: 32 word) \<lparr>data = [NaN, NaN, NaN :: int fp], counter = 0, total = 0\<rparr> = Some NaN
   \<and> maximum (3 :: 32 word) \<lparr>data = [NaN, NaN, NaN :: int fp], counter = 0, total = 0\<rparr> = Some NaN
   \<and> \<not> fp_eq (NaN :: int fp) NaN"
  by (simp add: CircularBuffer_fill_def fill_loop.simps arr_set_def
      minimum_def maximum_def minimum_loop.simps maximum_loop.simps arr_get_def
      int_incr_def INT_MAX_def less_fp_def fp_eq_def)

text \<open>
  C5, as the code has it. In every state that satisfies the invariant, for a capacity with
  \<^verbatim>\<open>3 * LEN - 1 <= INT_MAX\<close>, iteration returns and yields \<^verbatim>\<open>count()\<close> values: the slots
  \<open>(counter - total + k) mod LEN\<close> for \<open>k = 0, ..., total - 1\<close>, the window that ends just before
  the cursor. The window is placed by the cursor: after \<^verbatim>\<open>next()\<close> it lies one slot further,
  and a \<^verbatim>\<open>prev()\<close> after the \<^verbatim>\<open>next()\<close> puts it back. After appends alone into a freshly
  default-constructed buffer, also with a \<^verbatim>\<open>next()\<close> and a \<^verbatim>\<open>prev()\<close> that undo each other
  between the appends and the iteration, the window holds the last \<open>min N LEN\<close> appended
  values, oldest first.
\<close>

theorem iterate_follows_cursor:
  fixes LEN :: "'w::len word"
  assumes cap: "iter_cap_ok LEN" and inv: "invar LEN b"
  shows "iterate LEN b = Some (map
      (\<lambda>k. data b ! ((unat (counter b) + unat LEN - unat (total b) + k) mod unat LEN))
      [0..<unat (total b)])
    \<and> iterate LEN (next_cb LEN b) = Some (map
      (\<lambda>k. data b ! ((Suc (unat (counter b)) + unat LEN - unat (total b) + k) mod unat LEN))
      [0..<unat (total b)])
    \<and> iterate LEN (prev LEN (next_cb LEN b)) = iterate LEN b
    \<and> (length raw = unat LEN \<longrightarrow>
        Option.bind (appends LEN (CircularBuffer_default raw) vs) (iterate LEN)
          = Some (if length vs \<le> unat LEN then vs else drop (length vs - unat LEN) vs)
        \<and> Option.bind (appends LEN (CircularBuffer_default raw) vs)
            (\<lambda>b0. iterate LEN (prev LEN (next_cb LEN b0)))
          = Some (if length vs \<le> unat LEN then vs else drop (length vs - unat LEN) vs)
        \<and> Option.bind (appends LEN (CircularBuffer_default raw) vs)
            (\<lambda>b0. iterate LEN (next_cb LEN (prev LEN b0)))
          = Some (if length vs \<le> unat LEN then vs else drop (length vs - unat LEN) vs))"
proof (intro conjI impI)
  note cap' = iter_cap_ok_cap_ok [OF cap]
  show "iterate LEN b = Some (map
      (\<lambda>k. data b ! ((unat (counter b) + unat LEN - unat (total b) + k) mod unat LEN))
      [0..<unat (total b)])"
    using cap inv by (rule iterate_from_cursor)
  from cap' inv have tn: "unat (total b) \<le> unat LEN"
    by (simp add: invar_unsigned word_le_nat_alt)
  have same: "data (next_cb LEN b) = data b" "total (next_cb LEN b) = total b"
    by (simp_all add: next_cb_def)
  have "(unat (counter (next_cb LEN b)) + 2 * unat LEN - unat (total b) + k) mod unat LEN
      = (Suc (unat (counter b)) + unat LEN - unat (total b) + k) mod unat LEN" for k
    using window_from_cursor [OF tn, of "Suc (unat (counter b))" k]
    by (simp only: next_cb_nat(2) [OF cap' inv])
  then show "iterate LEN (next_cb LEN b) = Some (map
      (\<lambda>k. data b ! ((Suc (unat (counter b)) + unat LEN - unat (total b) + k) mod unat LEN))
      [0..<unat (total b)])"
    by (simp only: iterate_window [OF cap next_cb_nat(1) [OF cap' inv]] same)
  show "iterate LEN (prev LEN (next_cb LEN b)) = iterate LEN b"
    by (simp only: prev_next_cb [OF cap' inv])
next
  note cap' = iter_cap_ok_cap_ok [OF cap]
  assume raw: "length raw = unat LEN"
  from iterate_appended [OF cap raw, of vs] obtain b0
    where run: "appends LEN (CircularBuffer_default raw) vs = Some b0"
      and inv0: "invar LEN b0"
      and it: "iterate LEN b0 = Some (if length vs \<le> unat LEN then vs else drop (length vs - unat LEN) vs)"
    by blast
  from run it show "Option.bind (appends LEN (CircularBuffer_default raw) vs) (iterate LEN)
      = Some (if length vs \<le> unat LEN then vs else drop (length vs - unat LEN) vs)"
    by simp
  from run it show "Option.bind (appends LEN (CircularBuffer_default raw) vs)
        (\<lambda>b0. iterate LEN (prev LEN (next_cb LEN b0)))
      = Some (if length vs \<le> unat LEN then vs else drop (length vs - unat LEN) vs)"
    by (simp add: prev_next_cb [OF cap' inv0])
  from run it show "Option.bind (appends LEN (CircularBuffer_default raw) vs)
        (\<lambda>b0. iterate LEN (next_cb LEN (prev LEN b0)))
      = Some (if length vs \<le> unat LEN then vs else drop (length vs - unat LEN) vs)"
    by (simp add: next_cb_prev [OF cap' inv0])
qed

theorem iterate_follows_cursor_witness:
  "iterate (3 :: 32 word) \<lparr>data = [1, 2, 3 :: int], counter = 1, total = 2\<rparr> = Some [3, 1]
   \<and> iterate (3 :: 32 word) (next_cb 3 \<lparr>data = [1, 2, 3 :: int], counter = 1, total = 2\<rparr>) = Some [1, 2]
   \<and> Option.bind (appends (3 :: 32 word) (CircularBuffer_default [7, 7, 7 :: int]) [10, 20, 30, 40])
       (\<lambda>b0. iterate 3 (prev 3 (next_cb 3 b0))) = Some [20, 30, 40]"
proof -
  have cap: "iter_cap_ok (3 :: 32 word)"
    by (simp add: iter_cap_ok_def)
  have inv: "invar (3 :: 32 word) \<lparr>data = [1, 2, 3 :: int], counter = 1, total = 2\<rparr>"
    by (simp add: invar_def)
  have raw: "length [7, 7, 7 :: int] = unat (3 :: 32 word)"
    by simp
  have upt: "[0..<2] = [0, Suc 0]"
    by (simp add: upt_rec)
  note window = iterate_follows_cursor [OF cap inv, of "[7, 7, 7 :: int]" "[10, 20, 30, 40 :: int]"]
  from window upt have "iterate (3 :: 32 word) \<lparr>data = [1, 2, 3 :: int], counter = 1, total = 2\<rparr> = Some [3, 1]"
    and "iterate (3 :: 32 word) (next_cb 3 \<lparr>data = [1, 2, 3 :: int], counter = 1, total = 2\<rparr>) = Some [1, 2]"
    by simp_all
  moreover from window raw
  have "Option.bind (appends (3 :: 32 word) (CircularBuffer_default [7, 7, 7 :: int]) [10, 20, 30, 40])
      (\<lambda>b0. iterate 3 (prev 3 (next_cb 3 b0)))
    = Some (if length [10, 20, 30, 40 :: int] \<le> unat (3 :: 32 word) then [10, 20, 30, 40]
        else drop (length [10, 20, 30, 40 :: int] - unat (3 :: 32 word)) [10, 20, 30, 40])"
    by blast
  then have "Option.bind (appends (3 :: 32 word) (CircularBuffer_default [7, 7, 7 :: int]) [10, 20, 30, 40])
      (\<lambda>b0. iterate 3 (prev 3 (next_cb 3 b0))) = Some [20, 30, 40]"
    by simp
  ultimately show ?thesis
    by (intro conjI)
qed

text \<open>
  C5 as stated fails on a buffer of capacity 3 after the appends 1, 2, 3: iteration yields
  1, 2, 3, and after one \<^verbatim>\<open>next()\<close> it yields 2, 3, 1.
\<close>

theorem iterate_follows_cursor_counterexample:
  "appends (3 :: 32 word) (CircularBuffer_default [0, 0, 0]) [1, 2, 3]
     = Some \<lparr>data = [1, 2, 3 :: int], counter = 0, total = 3\<rparr>
   \<and> iterate (3 :: 32 word) \<lparr>data = [1, 2, 3 :: int], counter = 0, total = 3\<rparr> = Some [1, 2, 3]
   \<and> next_cb (3 :: 32 word) \<lparr>data = [1, 2, 3 :: int], counter = 0, total = 3\<rparr>
     = \<lparr>data = [1, 2, 3], counter = 1, total = 3\<rparr>
   \<and> iterate (3 :: 32 word) \<lparr>data = [1, 2, 3 :: int], counter = 1, total = 3\<rparr> = Some [2, 3, 1]"
  by (simp add: CircularBuffer_default_def append_cb_def arr_set_def int_incr_def INT_MAX_def
      next_cb_def begin_cb_def end_cb_def iterate_def range_for.simps iterator_neq_def
      iterator_deref_def iterator_incr_def arr_get_def)

end
